theory Spec2Isabelle
  imports Main
begin

section \<open>Dispatcher: data\<close>

text \<open>
  The dispatcher of \<^verbatim>\<open>lib/protocol/dispatcher.js\<close> is event driven: its methods run to
  completion, and the handlers it chains on promises run later, one batch at a time.  The
  model has one function per method and one per batch of handlers, named after the
  source, and a step function that lets the environment (callers, the transport pool,
  transports, timers, the promise library) choose which of them runs next.

  Conventions of the model.
  \<^item> \<^verbatim>\<open>this._envelopes\<close> is a plain object.  Its own entries are an association list in
    insertion order; a property key is a string.  A read \<^verbatim>\<open>this._envelopes[id]\<close> finds an
    own entry, or a member inherited from \<^verbatim>\<open>Object.prototype\<close>, or nothing (\<open>envelope_at\<close>).
  \<^item> Every call of \<^verbatim>\<open>sendMessage\<close> that gets past the in-flight check creates one envelope
    object and one closure (\<^verbatim>\<open>id\<close>, \<^verbatim>\<open>message\<close>, \<^verbatim>\<open>scheduler\<close>, \<^verbatim>\<open>envelope\<close>).  Both live
    in one \<open>operation\<close>, stored in the list \<open>ops\<close>; its index is the address of the
    envelope object and also names the future \<^verbatim>\<open>envelope.promise\<close>.
  \<^item> Calls on collaborators that are not part of the file (scheduler, pool, transport,
    publisher mixin) are appended to \<open>log\<close> in the order the source makes them.
  \<^item> A handler chained on a promise (\<^verbatim>\<open>then\<close>, \<^verbatim>\<open>catch\<close>, \<^verbatim>\<open>finally\<close>) never runs inside
    the call that settles or cancels the promise.  The handlers that one settlement
    sets off run together, in a step of their own; between the call and that step any
    other step can happen.  The steps of handlers are: \<open>Settle\<close> (the handlers of
    \<^verbatim>\<open>sendMessage\<close> on a promise that \<^verbatim>\<open>_attemptSend\<close> returned rejected, or after a
    cancellation), \<open>ResponseJob\<close> and \<open>FinalJob\<close> (the handlers of a response promise),
    \<open>PoolResolved\<close> and \<open>PoolRejected\<close> (of the promise of the pool), \<open>SendFulfilled\<close> and
    \<open>SendRejected\<close> (of the promise of the transport), \<open>AttemptTimeout\<close>, \<open>RetryTimer\<close>
    and \<open>Deadline\<close> (of a timer that has fired).  The callback of a timer settles the
    promise of the timer and changes nothing that a method of the dispatcher reads; what
    the timer does is done by the handlers this sets off, and their step is the step of
    the timer.
  \<^item> A timer is armed by \<^verbatim>\<open>setTimeout\<close>, which replaces a delay below 1 ms or above
    2147483647 ms by 1 ms (\<open>setTimeout_delay\<close>), and never fires early: a timer armed at
    time \<open>t\<close> for \<open>n\<close> ms can fire once the clock \<open>now\<close> has reached
    \<open>t + setTimeout_delay n\<close>.
  \<^item> What a cancellation does to the promises of the pool and of the transport is not
    tracked.
\<close>

type_synonym time = nat

record message =
  mid :: string
  channel :: string
  connectionType :: "string option"

record reply =
  rid :: string
  successful :: "bool option"
  rchannel :: string

record transport =
  tref :: nat
  t_connectionType :: string

datatype error = NoLongerDeliverable | TimeoutError | OtherError string

datatype outcome = Fulfilled reply | Rejected error | Cancelled

datatype sched_method =
  SIsDeliverable | SSend | SFail | SGetTimeout | SGetInterval | SSucceed | SAbort

datatype effect =
    SchedulerNew nat
  | SchedulerCall nat sched_method
  | PoolGet
  | PoolDown transport
  | PoolClosing
  | PoolClose
  | TransportSend transport message
  | SendCancel transport
  | ResolverCalled nat reply
  | Trigger string "reply option"
  | StopListening

text \<open>
  Where the promise chain of one \<^verbatim>\<open>sendMessage\<close> call stands.
  \<^item> \<open>Rejecting e\<close>: \<^verbatim>\<open>_attemptSend\<close> returned \<^verbatim>\<open>Promise.reject(e)\<close>; handlers pending.
  \<^item> \<open>AwaitTransport x\<close>: waiting for \<^verbatim>\<open>this._pool.get()\<close>; its \<^verbatim>\<open>.timeout\<close> fires at \<open>x\<close>.
  \<^item> \<open>AwaitReply t sent resp x\<close>: waiting for \<^verbatim>\<open>Promise.join(responsePromise, sendPromise)\<close>
    on transport \<open>t\<close>; \<open>sent\<close> says that the join has the send, \<open>resp\<close> holds the response
    once the join has it; the \<^verbatim>\<open>.timeout\<close> fires at \<open>x\<close>.
  \<^item> \<open>AwaitRetry x\<close>: waiting for \<^verbatim>\<open>Promise.delay\<close> in \<^verbatim>\<open>_awaitRetry\<close>, due at \<open>x\<close>.
  \<^item> \<open>Cancelling\<close>: the future has been cancelled; the \<^verbatim>\<open>.finally\<close> of \<^verbatim>\<open>sendMessage\<close> is
    pending.
  \<^item> \<open>Settled r\<close>: the handlers of \<^verbatim>\<open>sendMessage\<close> have run, the \<^verbatim>\<open>.finally\<close> last, and the
    future has the outcome \<open>r\<close>.
\<close>

datatype phase =
    Rejecting error
  | AwaitTransport time
  | AwaitReply transport bool "reply option" time
  | AwaitRetry time
  | Cancelling
  | Settled outcome

text \<open>
  The function in \<^verbatim>\<open>envelope.resolve\<close> resolves the response promise it was created with
  (line 142).  \<open>Live\<close>: that promise is pending and the join of the attempt in progress
  waits for it.  \<open>Stale\<close>: it is pending, but its attempt is over.  \<open>Dead\<close>: it is no
  longer pending, so that a call does nothing.
\<close>

datatype resolver = Live | Stale | Dead

text \<open>
  An operation: the closure of one \<^verbatim>\<open>sendMessage\<close> call and its envelope.  \<open>env_resolve\<close>
  is \<^verbatim>\<open>envelope.resolve\<close>, \<open>None\<close> for \<^verbatim>\<open>undefined\<close> and \<^verbatim>\<open>null\<close>.  \<open>op_reply\<close> holds the
  reply with which the response promise of the attempt in progress has been fulfilled
  while its handlers have not run.  \<open>op_finals\<close> counts the response promises of earlier
  attempts whose \<^verbatim>\<open>.finally\<close> (line 145) is still to run.
\<close>

record 's operation =
  op_id :: string
  op_message :: message
  op_scheduler :: 's
  env_resolve :: "resolver option"
  op_reply :: "reply option"
  op_finals :: nat
  op_deadline :: time
  op_phase :: phase

record 's dispatcher =
  advice_retry :: nat
  envelopes :: "(string \<times> nat) list"
  ops :: "'s operation list"
  conn_state :: nat
  now :: time
  log :: "effect list"

text \<open>
  The scheduler class is a constructor argument (\<^verbatim>\<open>options.scheduler || Scheduler\<close>); the
  default one is not among the sources.  The model takes the class as a parameter: a
  constructor and the seven methods the dispatcher calls, over a state \<open>'s\<close> of the
  scheduler's own.  Each of them may read the clock.
\<close>

record sched_options =
  so_timeout :: nat
  so_interval :: nat
  so_attempts :: "nat option"

record 's scheduler_class =
  sch_new :: "message \<Rightarrow> sched_options \<Rightarrow> time \<Rightarrow> 's"
  sch_isDeliverable :: "'s \<Rightarrow> time \<Rightarrow> bool"
  sch_send :: "'s \<Rightarrow> time \<Rightarrow> 's"
  sch_fail :: "'s \<Rightarrow> time \<Rightarrow> 's"
  sch_getTimeout :: "'s \<Rightarrow> time \<Rightarrow> nat"
  sch_getInterval :: "'s \<Rightarrow> time \<Rightarrow> nat"
  sch_succeed :: "'s \<Rightarrow> time \<Rightarrow> 's"
  sch_abort :: "'s \<Rightarrow> time \<Rightarrow> 's"

record send_options =
  attempts :: "nat option"
  deadline :: "nat option"

definition UP :: nat where
  "UP = 1"

definition DOWN :: nat where
  "DOWN = 2"

text \<open>Modelled from the spec: \<^verbatim>\<open>Channel.CONNECT\<close> of \<^verbatim>\<open>./channel\<close>, the connect channel.\<close>

definition CONNECT :: string where
  "CONNECT = ''/meta/connect''"

definition Dispatcher :: "nat \<Rightarrow> time \<Rightarrow> 's dispatcher" where
  "Dispatcher retry t0 =
     \<lparr>advice_retry = retry, envelopes = [], ops = [], conn_state = 0, now = t0, log = []\<rparr>"

section \<open>Dispatcher: helpers\<close>

text \<open>The delay that \<^verbatim>\<open>setTimeout\<close> arms for a requested delay, in ms.\<close>

definition setTimeout_delay :: "nat \<Rightarrow> nat" where
  "setTimeout_delay ms = (if ms < 1 \<or> 2147483647 < ms then 1 else ms)"

text \<open>The names of the members that a plain object inherits from \<^verbatim>\<open>Object.prototype\<close>.\<close>

definition object_prototype :: "string list" where
  "object_prototype =
     [''constructor'', ''hasOwnProperty'', ''isPrototypeOf'', ''propertyIsEnumerable'',
      ''toLocaleString'', ''toString'', ''valueOf'', ''__proto__'', ''__defineGetter__'',
      ''__defineSetter__'', ''__lookupGetter__'', ''__lookupSetter__'']"

text \<open>
  \<^verbatim>\<open>this._envelopes[id]\<close>: the envelope of an own entry, or an inherited member (a function
  or \<^verbatim>\<open>Object.prototype\<close> itself: truthy, with no \<^verbatim>\<open>promise\<close> and no \<^verbatim>\<open>resolve\<close>), or
  \<^verbatim>\<open>undefined\<close>.
\<close>

datatype lookup = Own nat | Inherited | Undefined

definition envelope_at :: "(string \<times> nat) list \<Rightarrow> string \<Rightarrow> lookup" where
  "envelope_at envs k =
     (case map_of envs k of
        Some r \<Rightarrow> Own r
      | None \<Rightarrow> if k \<in> set object_prototype then Inherited else Undefined)"

text \<open>
  \<open>pending\<close>: the future \<^verbatim>\<open>envelope.promise\<close> is pending.  \<open>finished\<close>: the handlers of
  \<^verbatim>\<open>sendMessage\<close> have all run.  A cancelled future whose \<^verbatim>\<open>.finally\<close> is still to run is
  neither.
\<close>

definition pending :: "'s operation \<Rightarrow> bool" where
  "pending opn = (case op_phase opn of Settled r \<Rightarrow> False | Cancelling \<Rightarrow> False | _ \<Rightarrow> True)"

definition finished :: "'s operation \<Rightarrow> bool" where
  "finished opn = (case op_phase opn of Settled r \<Rightarrow> True | _ \<Rightarrow> False)"

definition emit :: "effect list \<Rightarrow> 's dispatcher \<Rightarrow> 's dispatcher" where
  "emit es d = d\<lparr>log := log d @ es\<rparr>"

definition upd_op :: "nat \<Rightarrow> ('s operation \<Rightarrow> 's operation) \<Rightarrow> 's dispatcher \<Rightarrow> 's dispatcher" where
  "upd_op r f d = d\<lparr>ops := (ops d)[r := f (ops d ! r)]\<rparr>"

definition set_phase :: "nat \<Rightarrow> phase \<Rightarrow> 's dispatcher \<Rightarrow> 's dispatcher" where
  "set_phase r p d = upd_op r (\<lambda>opn. opn\<lparr>op_phase := p\<rparr>) d"

text \<open>A scheduler method that updates the scheduler: the call is logged, the state replaced.\<close>

definition scheduler_call ::
  "nat \<Rightarrow> sched_method \<Rightarrow> ('s \<Rightarrow> time \<Rightarrow> 's) \<Rightarrow> 's dispatcher \<Rightarrow> 's dispatcher" where
  "scheduler_call r m f d =
     emit [SchedulerCall r m]
       (upd_op r (\<lambda>opn. opn\<lparr>op_scheduler := f (op_scheduler opn) (now d)\<rparr>) d)"

text \<open>\<^verbatim>\<open>delete this._envelopes[id]\<close>: whatever own entry has the key goes.\<close>

definition delete_envelope :: "string \<Rightarrow> 's dispatcher \<Rightarrow> 's dispatcher" where
  "delete_envelope i d = d\<lparr>envelopes := filter (\<lambda>kv. fst kv \<noteq> i) (envelopes d)\<rparr>"

section \<open>The response promise of an attempt\<close>

text \<open>
  \<^verbatim>\<open>responsePromise\<close> (lines 141 to 146) is a promise that only \<^verbatim>\<open>envelope.resolve\<close> fulfils,
  with a \<^verbatim>\<open>.finally\<close> that sets \<^verbatim>\<open>envelope.resolve = null\<close>.  The three functions say what
  becomes of it when its attempt ends before the join has the response.

  \<open>response_orphaned\<close>: the send was rejected.  The join is rejected and nothing cancels
  the response promise: pending, it stays so, out of reach of the chain, with its resolver
  still in the envelope; fulfilled, its handlers are still to run.

  \<open>response_timed_out\<close>: a timer has fired and its handlers run.  The timer cancelled the
  join and with it a pending response promise, whose \<^verbatim>\<open>.finally\<close> runs with those handlers.

  \<open>response_cancelled\<close>: the future was cancelled by a call.  A pending response promise is
  cancelled with it; its \<^verbatim>\<open>.finally\<close> runs later.
\<close>

definition response_orphaned :: "'s operation \<Rightarrow> 's operation" where
  "response_orphaned q =
     q\<lparr>env_resolve := (if env_resolve q = Some Live then Some Stale else env_resolve q),
       op_finals := (if op_reply q = None then op_finals q else op_finals q + 1),
       op_reply := None\<rparr>"

definition response_timed_out :: "'s operation \<Rightarrow> 's operation" where
  "response_timed_out q =
     q\<lparr>env_resolve := (if env_resolve q = Some Live then None else env_resolve q),
       op_finals := (if op_reply q = None then op_finals q else op_finals q + 1),
       op_reply := None\<rparr>"

definition response_cancelled :: "'s operation \<Rightarrow> 's operation" where
  "response_cancelled q =
     q\<lparr>env_resolve := (if env_resolve q = Some Live then Some Dead else env_resolve q),
       op_finals :=
         (if env_resolve q = Some Live \<or> op_reply q \<noteq> None then op_finals q + 1
          else op_finals q),
       op_reply := None\<rparr>"

section \<open>Dispatcher.sendMessage and its handlers\<close>

text \<open>The \<^verbatim>\<open>.finally\<close> of \<^verbatim>\<open>sendMessage\<close> (source lines 116 to 119).\<close>

definition sendMessage_finally :: "nat \<Rightarrow> 's dispatcher \<Rightarrow> 's dispatcher" where
  "sendMessage_finally r d = delete_envelope (op_id (ops d ! r)) d"

text \<open>The \<^verbatim>\<open>.then\<close> of \<^verbatim>\<open>sendMessage\<close> (lines 108 to 111), followed by the \<^verbatim>\<open>.finally\<close>.\<close>

definition sendMessage_fulfilled ::
  "'s scheduler_class \<Rightarrow> nat \<Rightarrow> reply \<Rightarrow> 's dispatcher \<Rightarrow> 's dispatcher" where
  "sendMessage_fulfilled S r response d =
     set_phase r (Settled (Fulfilled response))
       (sendMessage_finally r (scheduler_call r SSucceed (sch_succeed S) d))"

text \<open>The \<^verbatim>\<open>.catch\<close> of \<^verbatim>\<open>sendMessage\<close> (lines 112 to 115), followed by the \<^verbatim>\<open>.finally\<close>.\<close>

definition sendMessage_rejected ::
  "'s scheduler_class \<Rightarrow> nat \<Rightarrow> error \<Rightarrow> 's dispatcher \<Rightarrow> 's dispatcher" where
  "sendMessage_rejected S r err d =
     set_phase r (Settled (Rejected err))
       (sendMessage_finally r (scheduler_call r SAbort (sch_abort S) d))"

text \<open>After a cancellation the \<^verbatim>\<open>.then\<close> and the \<^verbatim>\<open>.catch\<close> are skipped; the \<^verbatim>\<open>.finally\<close> runs.\<close>

definition sendMessage_cancelled :: "nat \<Rightarrow> 's dispatcher \<Rightarrow> 's dispatcher" where
  "sendMessage_cancelled r d = set_phase r (Settled Cancelled) (sendMessage_finally r d)"

text \<open>
  \<^verbatim>\<open>envelope.promise.cancel()\<close>: nothing happens unless the future is pending; then it is
  cancelled, and the attempt in progress with it.  No handler runs in the call.
\<close>

definition future_cancel :: "nat \<Rightarrow> 's dispatcher \<Rightarrow> 's dispatcher" where
  "future_cancel r d =
     (if pending (ops d ! r)
      then upd_op r (\<lambda>q. (response_cancelled q)\<lparr>op_phase := Cancelling\<rparr>) d
      else d)"

text \<open>
  The \<^verbatim>\<open>.timeout(options && options.deadline || 60000)\<close> of \<^verbatim>\<open>sendMessage\<close> has fired: the
  attempt in progress is cancelled and the handlers run on a \<^verbatim>\<open>TimeoutError\<close>.
\<close>

definition sendMessage_deadline :: "'s scheduler_class \<Rightarrow> nat \<Rightarrow> 's dispatcher \<Rightarrow> 's dispatcher" where
  "sendMessage_deadline S r d = sendMessage_rejected S r TimeoutError (upd_op r response_timed_out d)"

text \<open>
  \<^verbatim>\<open>_attemptSend\<close>, lines 124 to 132: the part that runs before the first promise is
  awaited.
\<close>

definition attemptSend :: "'s scheduler_class \<Rightarrow> nat \<Rightarrow> 's dispatcher \<Rightarrow> 's dispatcher" where
  "attemptSend S r d =
     (let d1 = emit [SchedulerCall r SIsDeliverable] d in
      if \<not> sch_isDeliverable S (op_scheduler (ops d ! r)) (now d)
      then set_phase r (Rejecting NoLongerDeliverable) d1
      else
        let d2 = scheduler_call r SSend (sch_send S) d1;
            d3 = emit [PoolGet, SchedulerCall r SGetTimeout] d2
        in set_phase r
             (AwaitTransport
                (now d + setTimeout_delay (sch_getTimeout S (op_scheduler (ops d2 ! r)) (now d))))
             d3)"

text \<open>\<^verbatim>\<open>_awaitRetry\<close>, lines 187 to 196, up to the delay.\<close>

definition awaitRetry :: "'s scheduler_class \<Rightarrow> nat \<Rightarrow> 's dispatcher \<Rightarrow> 's dispatcher" where
  "awaitRetry S r d =
     set_phase r
       (AwaitRetry
          (now d + setTimeout_delay (sch_getInterval S (op_scheduler (ops d ! r)) (now d))))
       (emit [SchedulerCall r SGetInterval] d)"

text \<open>The \<^verbatim>\<open>.catch\<close> of \<^verbatim>\<open>_attemptSend\<close>, lines 169 to 180.\<close>

definition attemptSend_failed ::
  "'s scheduler_class \<Rightarrow> nat \<Rightarrow> error \<Rightarrow> 's dispatcher \<Rightarrow> 's dispatcher" where
  "attemptSend_failed S r e d =
     (let d1 = scheduler_call r SFail (sch_fail S) d;
          d2 = emit [SchedulerCall r SIsDeliverable] d1
      in if \<not> sch_isDeliverable S (op_scheduler (ops d1 ! r)) (now d)
         then sendMessage_rejected S r e d2
         else awaitRetry S r d2)"

text \<open>The \<^verbatim>\<open>.then\<close> of \<^verbatim>\<open>_attemptSend\<close>, lines 133 to 161, run with the transport of the pool.\<close>

definition attemptSend_transport ::
  "'s scheduler_class \<Rightarrow> nat \<Rightarrow> transport \<Rightarrow> 's dispatcher \<Rightarrow> 's dispatcher" where
  "attemptSend_transport S r t d =
     (let opn = ops d ! r;
          m = op_message opn;
          m' = (if channel m = CONNECT then m\<lparr>connectionType := Some (t_connectionType t)\<rparr> else m);
          x = now d + setTimeout_delay (sch_getTimeout S (op_scheduler opn) (now d))
      in emit [TransportSend t m', SchedulerCall r SGetTimeout]
           (upd_op r (\<lambda>q. q\<lparr>op_message := m', env_resolve := Some Live,
                             op_phase := AwaitReply t False None x\<rparr>) d))"

text \<open>
  The \<^verbatim>\<open>.timeout\<close> of the join has fired, lines 161 to 167: the handler cancels the send and
  rethrows into the \<^verbatim>\<open>.catch\<close>.
\<close>

definition attemptSend_timeout ::
  "'s scheduler_class \<Rightarrow> nat \<Rightarrow> transport \<Rightarrow> 's dispatcher \<Rightarrow> 's dispatcher" where
  "attemptSend_timeout S r t d =
     attemptSend_failed S r TimeoutError (emit [SendCancel t] (upd_op r response_timed_out d))"

text \<open>\<^verbatim>\<open>sendPromise\<close> rejected: the join is rejected, into the \<^verbatim>\<open>.catch\<close>.\<close>

definition send_rejected ::
  "'s scheduler_class \<Rightarrow> nat \<Rightarrow> error \<Rightarrow> 's dispatcher \<Rightarrow> 's dispatcher" where
  "send_rejected S r e d = attemptSend_failed S r e (upd_op r response_orphaned d)"

text \<open>\<^verbatim>\<open>sendPromise\<close> fulfilled: the join is fulfilled once it has the response too.\<close>

definition send_fulfilled :: "'s scheduler_class \<Rightarrow> nat \<Rightarrow> 's dispatcher \<Rightarrow> 's dispatcher" where
  "send_fulfilled S r d =
     (case op_phase (ops d ! r) of
        AwaitReply t sent resp x \<Rightarrow>
          (case resp of
             Some response \<Rightarrow> sendMessage_fulfilled S r response d
           | None \<Rightarrow> set_phase r (AwaitReply t True None x) d)
      | _ \<Rightarrow> d)"

text \<open>
  \<^verbatim>\<open>envelope.resolve(reply)\<close>, the call only: a pending response promise is fulfilled, and
  no handler runs.
\<close>

definition envelope_resolve :: "nat \<Rightarrow> reply \<Rightarrow> 's dispatcher \<Rightarrow> 's dispatcher" where
  "envelope_resolve r rep d =
     emit [ResolverCalled r rep]
       (upd_op r
          (\<lambda>q. case env_resolve q of
                  Some Live \<Rightarrow> q\<lparr>env_resolve := Some Dead, op_reply := Some rep\<rparr>
                | Some Stale \<Rightarrow> q\<lparr>env_resolve := Some Dead, op_finals := op_finals q + 1\<rparr>
                | _ \<Rightarrow> q) d)"

text \<open>
  The handlers of a response promise that was fulfilled while its attempt was in
  progress: the \<^verbatim>\<open>.finally\<close> (line 145), then the join, which is fulfilled once it has the
  send too; then the handlers of \<^verbatim>\<open>sendMessage\<close> run.
\<close>

definition response_fulfilled :: "'s scheduler_class \<Rightarrow> nat \<Rightarrow> 's dispatcher \<Rightarrow> 's dispatcher" where
  "response_fulfilled S r d =
     (case op_reply (ops d ! r) of
        None \<Rightarrow> d
      | Some rep \<Rightarrow>
          let d1 = upd_op r (\<lambda>q. q\<lparr>env_resolve := None, op_reply := None\<rparr>) d in
          (case op_phase (ops d ! r) of
             AwaitReply t sent None x \<Rightarrow>
               if sent then sendMessage_fulfilled S r rep d1
               else set_phase r (AwaitReply t False (Some rep) x) d1
           | _ \<Rightarrow> d1))"

text \<open>The \<^verbatim>\<open>.finally\<close> (line 145) of a response promise of an earlier attempt.\<close>

definition response_finally :: "nat \<Rightarrow> 's dispatcher \<Rightarrow> 's dispatcher" where
  "response_finally r d =
     upd_op r (\<lambda>q. q\<lparr>env_resolve := None, op_finals := op_finals q - 1\<rparr>) d"

text \<open>
  \<^verbatim>\<open>sendMessage\<close>, lines 86 to 122.  The result is the value returned, \<open>None\<close> for
  \<^verbatim>\<open>undefined\<close>, and the new state.  The new operation is stored before \<^verbatim>\<open>_attemptSend\<close> runs,
  as the envelope is (line 97); its phase is the one \<^verbatim>\<open>_attemptSend\<close> sets.  The outer
  \<^verbatim>\<open>.timeout\<close> is armed for \<open>op_deadline\<close>.
\<close>

definition sendMessage ::
  "'s scheduler_class \<Rightarrow> message \<Rightarrow> nat \<Rightarrow> send_options option \<Rightarrow> 's dispatcher
     \<Rightarrow> nat option \<times> 's dispatcher" where
  "sendMessage S m timeout options d =
     (case envelope_at (envelopes d) (mid m) of
        Own r \<Rightarrow> (Some r, d)
      | Inherited \<Rightarrow> (None, d)
      | Undefined \<Rightarrow>
          let r = length (ops d);
              sch = sch_new S m
                      \<lparr>so_timeout = timeout, so_interval = advice_retry d,
                       so_attempts = (case options of None \<Rightarrow> None | Some opts \<Rightarrow> attempts opts)\<rparr>
                      (now d);
              dl = (case options of
                      None \<Rightarrow> 60000
                    | Some opts \<Rightarrow>
                        (case deadline opts of
                           None \<Rightarrow> 60000
                         | Some n \<Rightarrow> if n = 0 then 60000 else n));
              opn = \<lparr>op_id = mid m, op_message = m, op_scheduler = sch, env_resolve = None,
                     op_reply = None, op_finals = 0,
                     op_deadline = now d + setTimeout_delay dl,
                     op_phase = Rejecting NoLongerDeliverable\<rparr>;
              d1 = d\<lparr>envelopes := envelopes d @ [(mid m, r)], ops := ops d @ [opn],
                     log := log d @ [SchedulerNew r]\<rparr>
          in (Some r, attemptSend S r d1))"

section \<open>Dispatcher.handleResponse and the other methods\<close>

text \<open>\<^verbatim>\<open>this.trigger(name, arg)\<close> of the publisher mixin.\<close>

definition trigger :: "string \<Rightarrow> reply option \<Rightarrow> 's dispatcher \<Rightarrow> 's dispatcher" where
  "trigger name arg d = emit [Trigger name arg] d"

text \<open>\<^verbatim>\<open>handleResponse\<close>, lines 198 to 219.\<close>

definition handleResponse :: "reply \<Rightarrow> 's dispatcher \<Rightarrow> 's dispatcher" where
  "handleResponse rep d =
     (let d1 =
        (case envelope_at (envelopes d) (rid rep) of
           Own r \<Rightarrow>
             if successful rep \<noteq> None
             then (if env_resolve (ops d ! r) \<noteq> None then envelope_resolve r rep d else d)
             else trigger ''message'' (Some rep) d
         | Inherited \<Rightarrow>
             if successful rep \<noteq> None then d else trigger ''message'' (Some rep) d
         | Undefined \<Rightarrow> trigger ''message'' (Some rep) d)
      in if conn_state d1 = UP then d1
         else trigger ''transport:up'' None (d1\<lparr>conn_state := UP\<rparr>))"

text \<open>\<^verbatim>\<open>_cancelPending\<close>, lines 64 to 73.\<close>

definition cancelPending :: "'s dispatcher \<Rightarrow> 's dispatcher" where
  "cancelPending d =
     fold (\<lambda>kv. future_cancel (snd kv)) (envelopes d) (d\<lparr>envelopes := []\<rparr>)"

definition disconnecting :: "'s dispatcher \<Rightarrow> 's dispatcher" where
  "disconnecting d = emit [PoolClosing] d"

definition close :: "'s dispatcher \<Rightarrow> 's dispatcher" where
  "close d = emit [PoolClose] (cancelPending d)"

definition destroy :: "'s dispatcher \<Rightarrow> 's dispatcher" where
  "destroy d = close (disconnecting (emit [StopListening] d))"

definition transportDown :: "transport \<Rightarrow> 's dispatcher \<Rightarrow> 's dispatcher" where
  "transportDown t d = emit [PoolDown t] d"

section \<open>The dispatcher as a transition system\<close>

datatype event =
    SendMessage message nat "send_options option"
  | HandleResponse reply
  | Close
  | Destroy
  | Disconnecting
  | TransportDown transport
  | Cancel nat
  | Settle nat
  | ResponseJob nat
  | FinalJob nat
  | PoolResolved nat transport
  | PoolRejected nat error
  | AttemptTimeout nat
  | SendFulfilled nat
  | SendRejected nat error
  | RetryTimer nat
  | Deadline nat
  | Tick nat

text \<open>
  \<open>step S e d\<close> is \<open>None\<close> when \<open>e\<close> cannot happen in \<open>d\<close>: handlers run only when the
  promise they are chained on has settled and they have not run yet, those of a timer
  only when the timer is due.
\<close>

definition step :: "'s scheduler_class \<Rightarrow> event \<Rightarrow> 's dispatcher \<Rightarrow> 's dispatcher option" where
  "step S e d =
     (case e of
        SendMessage m timeout options \<Rightarrow> Some (snd (sendMessage S m timeout options d))
      | HandleResponse rep \<Rightarrow> Some (handleResponse rep d)
      | Close \<Rightarrow> Some (close d)
      | Destroy \<Rightarrow> Some (destroy d)
      | Disconnecting \<Rightarrow> Some (disconnecting d)
      | TransportDown t \<Rightarrow> Some (transportDown t d)
      | Tick n \<Rightarrow> Some (d\<lparr>now := now d + n\<rparr>)
      | Cancel r \<Rightarrow> if r < length (ops d) then Some (future_cancel r d) else None
      | Settle r \<Rightarrow>
          if r < length (ops d)
          then (case op_phase (ops d ! r) of
                  Rejecting err \<Rightarrow> Some (sendMessage_rejected S r err d)
                | Cancelling \<Rightarrow> Some (sendMessage_cancelled r d)
                | _ \<Rightarrow> None)
          else None
      | ResponseJob r \<Rightarrow>
          if r < length (ops d) \<and> op_reply (ops d ! r) \<noteq> None
          then Some (response_fulfilled S r d)
          else None
      | FinalJob r \<Rightarrow>
          if r < length (ops d) \<and> 0 < op_finals (ops d ! r)
          then Some (response_finally r d)
          else None
      | PoolResolved r t \<Rightarrow>
          if r < length (ops d)
          then (case op_phase (ops d ! r) of
                  AwaitTransport x \<Rightarrow> Some (attemptSend_transport S r t d)
                | _ \<Rightarrow> None)
          else None
      | PoolRejected r err \<Rightarrow>
          if r < length (ops d)
          then (case op_phase (ops d ! r) of
                  AwaitTransport x \<Rightarrow> Some (attemptSend_failed S r err d)
                | _ \<Rightarrow> None)
          else None
      | AttemptTimeout r \<Rightarrow>
          if r < length (ops d)
          then (case op_phase (ops d ! r) of
                  AwaitTransport x \<Rightarrow>
                    if x \<le> now d then Some (attemptSend_failed S r TimeoutError d) else None
                | AwaitReply t sent resp x \<Rightarrow>
                    if x \<le> now d then Some (attemptSend_timeout S r t d) else None
                | _ \<Rightarrow> None)
          else None
      | SendFulfilled r \<Rightarrow>
          if r < length (ops d)
          then (case op_phase (ops d ! r) of
                  AwaitReply t sent resp x \<Rightarrow> if sent then None else Some (send_fulfilled S r d)
                | _ \<Rightarrow> None)
          else None
      | SendRejected r err \<Rightarrow>
          if r < length (ops d)
          then (case op_phase (ops d ! r) of
                  AwaitReply t sent resp x \<Rightarrow>
                    if sent then None else Some (send_rejected S r err d)
                | _ \<Rightarrow> None)
          else None
      | RetryTimer r \<Rightarrow>
          if r < length (ops d)
          then (case op_phase (ops d ! r) of
                  AwaitRetry x \<Rightarrow> if x \<le> now d then Some (attemptSend S r d) else None
                | _ \<Rightarrow> None)
          else None
      | Deadline r \<Rightarrow>
          if r < length (ops d) \<and> pending (ops d ! r) \<and> op_deadline (ops d ! r) \<le> now d
          then Some (sendMessage_deadline S r d)
          else None)"

fun run :: "'s scheduler_class \<Rightarrow> event list \<Rightarrow> 's dispatcher \<Rightarrow> 's dispatcher option" where
  "run S [] d = Some d"
| "run S (e # es) d = (case step S e d of None \<Rightarrow> None | Some d' \<Rightarrow> run S es d')"

text \<open>
  Modelled from the spec: the default \<^verbatim>\<open>Scheduler\<close> of \<^verbatim>\<open>./scheduler\<close>, which is not among
  the sources (section 4.1): it counts attempts against an optional maximum, holds an
  absolute deadline, is deliverable iff attempts remain and the deadline has not passed,
  and offers the remaining budget as timeout.  The interval is the base interval.
\<close>

record spec_scheduler =
  made :: nat
  allowed :: "nat option"
  due :: time
  interval :: nat
  failures :: nat

definition Scheduler :: "spec_scheduler scheduler_class" where
  "Scheduler =
     \<lparr>sch_new = (\<lambda>m opts t.
        \<lparr>made = 0, allowed = so_attempts opts, due = t + so_timeout opts,
         interval = so_interval opts, failures = 0\<rparr>),
      sch_isDeliverable = (\<lambda>s t.
        (case allowed s of None \<Rightarrow> True | Some n \<Rightarrow> made s < n) \<and> t < due s),
      sch_send = (\<lambda>s t. s\<lparr>made := made s + 1\<rparr>),
      sch_fail = (\<lambda>s t. s\<lparr>failures := failures s + 1\<rparr>),
      sch_getTimeout = (\<lambda>s t. due s - t),
      sch_getInterval = (\<lambda>s t. interval s),
      sch_succeed = (\<lambda>s t. s),
      sch_abort = (\<lambda>s t. s)\<rparr>"

section \<open>NodeHttpTransport.request\<close>

text \<open>
  \<^verbatim>\<open>request\<close> of \<^verbatim>\<open>lib/transport/node/node-http.js\<close> creates one promise and hands Node
  four callbacks: the response callback, the \<^verbatim>\<open>data\<close> and \<^verbatim>\<open>end\<close> listeners it registers
  on a response it accepts, and the \<^verbatim>\<open>error\<close> listener of the request; the promise gets
  one cancellation hook.  The model has one function per callback.  \<^verbatim>\<open>JSON.parse\<close> is a
  parameter: a function from the body to the parsed value, or to the fault it throws.
  Of a parsed value only its truthiness is read; a JSON number is falsy iff it is zero.
\<close>

datatype json =
    JNull
  | JBool bool
  | JNumber int
  | JString string
  | JArray "json list"
  | JObject "(string \<times> json) list"

fun truthy :: "json \<Rightarrow> bool" where
  "truthy JNull = False"
| "truthy (JBool b) = b"
| "truthy (JNumber n) = (n \<noteq> 0)"
| "truthy (JString s) = (s \<noteq> [])"
| "truthy (JArray vs) = True"
| "truthy (JObject kvs) = True"

datatype fault = SyntaxError

datatype transport_error = TransportError string

datatype future = Pending | Resolved | Failed transport_error | Aborted

datatype http_effect =
    SetSocketKeepAlive nat
  | RequestEnd string
  | RequestAbort
  | SetEncoding string
  | CallTransportDown transport
  | Receive json

text \<open>
  What Node may still deliver for the request: the response callback runs at most once
  and only on a request that has neither failed nor been aborted; \<^verbatim>\<open>data\<close> and \<^verbatim>\<open>end\<close> come
  after it, \<^verbatim>\<open>end\<close> once; an \<^verbatim>\<open>error\<close> of the socket can come at any time before the end
  of the response, also while the body is arriving or after an abort, and is the last
  event.
\<close>

datatype io_phase = AwaitingResponse | Receiving | Abandoned | Finished

record request =
  self :: transport
  promise :: future
  body :: "string option"
  io :: io_phase
  effects :: "http_effect list"

definition resolve :: "future \<Rightarrow> future" where
  "resolve p = (if p = Pending then Resolved else p)"

definition reject :: "transport_error \<Rightarrow> future \<Rightarrow> future" where
  "reject e p = (if p = Pending then Failed e else p)"

text \<open>A number in a string concatenation: its decimal digits.\<close>

fun decimal :: "nat \<Rightarrow> string" where
  "decimal n =
     (if n < 10 then [''0123456789'' ! n]
      else decimal (n div 10) @ [''0123456789'' ! (n mod 10)])"

declare decimal.simps [simp del]

text \<open>
  The executor of the promise, lines 27 to 76, up to the registration of the callbacks:
  \<open>content\<close> is \<^verbatim>\<open>this.encode(messages)\<close>, \<open>ping\<close> is \<^verbatim>\<open>this._advice.getPingInterval()\<close>.
\<close>

definition request :: "transport \<Rightarrow> string \<Rightarrow> nat \<Rightarrow> request" where
  "request t content ping =
     \<lparr>self = t, promise = Pending, body = None, io = AwaitingResponse,
      effects = [SetSocketKeepAlive ping, RequestEnd content]\<rparr>"

text \<open>The response callback, lines 32 to 64.  \<open>body = Some b\<close>: the listeners are registered.\<close>

definition on_response :: "nat \<Rightarrow> request \<Rightarrow> request" where
  "on_response status st =
     (if 200 \<le> status \<and> status < 300
      then st\<lparr>promise := resolve (promise st), body := Some [],
              effects := effects st @ [SetEncoding ''utf8'']\<rparr>
      else st\<lparr>promise := reject (TransportError (''HTTP Status '' @ decimal status)) (promise st),
              effects := effects st @ [CallTransportDown (self st)]\<rparr>)"

text \<open>The \<^verbatim>\<open>data\<close> listener, line 46.\<close>

definition on_data :: "string \<Rightarrow> request \<Rightarrow> request" where
  "on_data chunk st =
     (case body st of None \<Rightarrow> st | Some b \<Rightarrow> st\<lparr>body := Some (b @ chunk)\<rparr>)"

text \<open>
  The \<^verbatim>\<open>end\<close> listener, lines 48 to 63.  The result is \<open>Inl\<close> for a fault that leaves the
  listener, \<open>Inr\<close> for a normal return.
\<close>

definition on_end :: "(string \<Rightarrow> fault + json) \<Rightarrow> request \<Rightarrow> fault + request" where
  "on_end parse st =
     (case body st of
        None \<Rightarrow> Inr st
      | Some b \<Rightarrow>
          (case parse b of
             Inl e \<Rightarrow> Inr (st\<lparr>effects := effects st @ [CallTransportDown (self st)]\<rparr>)
           | Inr replies \<Rightarrow>
               if truthy replies
               then Inr (st\<lparr>effects := effects st @ [Receive replies]\<rparr>)
               else Inr (st\<lparr>effects := effects st @ [CallTransportDown (self st)]\<rparr>)))"

text \<open>The \<^verbatim>\<open>error\<close> listener of the request, lines 67 to 69.\<close>

definition on_error :: "string \<Rightarrow> request \<Rightarrow> request" where
  "on_error msg st = st\<lparr>promise := reject (TransportError msg) (promise st)\<rparr>"

text \<open>Cancellation of the promise, lines 72 to 74: the hook runs if it is still pending.\<close>

definition on_cancel :: "request \<Rightarrow> request" where
  "on_cancel st =
     (if promise st = Pending
      then st\<lparr>promise := Aborted, effects := effects st @ [RequestAbort]\<rparr>
      else st)"

datatype http_event = Response nat | Data string | End | Error string | CancelFuture

definition http_step ::
  "(string \<Rightarrow> fault + json) \<Rightarrow> http_event \<Rightarrow> request \<Rightarrow> (fault + request) option" where
  "http_step parse e st =
     (case e of
        Response status \<Rightarrow>
          if io st = AwaitingResponse then Some (Inr ((on_response status st)\<lparr>io := Receiving\<rparr>))
          else None
      | Data chunk \<Rightarrow> if io st = Receiving then Some (Inr (on_data chunk st)) else None
      | End \<Rightarrow>
          if io st = Receiving
          then Some (map_sum id (\<lambda>st'. st'\<lparr>io := Finished\<rparr>) (on_end parse st))
          else None
      | Error msg \<Rightarrow>
          if io st = Finished then None else Some (Inr ((on_error msg st)\<lparr>io := Finished\<rparr>))
      | CancelFuture \<Rightarrow>
          if promise st = Pending then Some (Inr ((on_cancel st)\<lparr>io := Abandoned\<rparr>))
          else Some (Inr (on_cancel st)))"

text \<open>
  A run of the request: \<open>None\<close> when Node cannot deliver the events in this order,
  \<open>Some (Inl f)\<close> when a callback let the fault \<open>f\<close> escape.
\<close>

fun http_run ::
  "(string \<Rightarrow> fault + json) \<Rightarrow> http_event list \<Rightarrow> request \<Rightarrow> (fault + request) option" where
  "http_run parse [] st = Some (Inr st)"
| "http_run parse (e # es) st =
     (case http_step parse e st of
        None \<Rightarrow> None
      | Some (Inl f) \<Rightarrow> Some (Inl f)
      | Some (Inr st') \<Rightarrow> http_run parse es st')"

section \<open>Invariants and measures\<close>

text \<open>
  \<open>inv\<close>: the keys of the envelope map are distinct, and every entry is the envelope of an
  operation whose handlers have not all run, stored under the id of its message.
\<close>

definition inv :: "'s dispatcher \<Rightarrow> bool" where
  "inv d \<longleftrightarrow>
     distinct (map fst (envelopes d)) \<and>
     (\<forall>k r. (k, r) \<in> set (envelopes d) \<longrightarrow>
        r < length (ops d) \<and> op_id (ops d ! r) = k \<and> \<not> finished (ops d ! r))"

text \<open>
  \<open>full\<close>: every operation whose handlers have not all run has its envelope in the map.
  It holds as long as the map has not been reset by \<^verbatim>\<open>_cancelPending\<close>.
\<close>

definition full :: "'s dispatcher \<Rightarrow> bool" where
  "full d \<longleftrightarrow>
     (\<forall>r. r < length (ops d) \<longrightarrow> \<not> finished (ops d ! r) \<longrightarrow>
        (op_id (ops d ! r), r) \<in> set (envelopes d))"

text \<open>
  What one step can do to the operations and the envelope map: leave them alone
  (\<open>idles\<close>), add one operation with its envelope (\<open>opens\<close>), reset the map and cancel
  futures (\<open>closes\<close>), or move one operation (\<open>touch\<close>): then the entry under the id of
  the operation goes when and only when its last handler runs, an operation that is
  not pending does not become so, and one whose handlers have all run keeps its outcome
  and its scheduler.
\<close>

definition touch :: "nat \<Rightarrow> 's dispatcher \<Rightarrow> 's dispatcher \<Rightarrow> bool" where
  "touch r d d' \<longleftrightarrow>
     length (ops d') = length (ops d) \<and>
     (\<forall>r'. r' \<noteq> r \<longrightarrow> ops d' ! r' = ops d ! r') \<and>
     op_id (ops d' ! r) = op_id (ops d ! r) \<and>
     now d' = now d \<and>
     (\<not> pending (ops d ! r) \<longrightarrow> \<not> pending (ops d' ! r)) \<and>
     (finished (ops d ! r) \<longrightarrow>
        op_phase (ops d' ! r) = op_phase (ops d ! r) \<and>
        op_scheduler (ops d' ! r) = op_scheduler (ops d ! r)) \<and>
     envelopes d' =
       (if finished (ops d' ! r) \<and> \<not> finished (ops d ! r)
        then filter (\<lambda>kv. fst kv \<noteq> op_id (ops d ! r)) (envelopes d)
        else envelopes d)"

definition closes :: "'s dispatcher \<Rightarrow> 's dispatcher \<Rightarrow> bool" where
  "closes d d' \<longleftrightarrow>
     envelopes d' = [] \<and> length (ops d') = length (ops d) \<and> now d' = now d \<and>
     (\<forall>r. r < length (ops d) \<longrightarrow>
        ops d' ! r = ops d ! r \<or>
        (pending (ops d ! r) \<and> op_phase (ops d' ! r) = Cancelling \<and>
         op_id (ops d' ! r) = op_id (ops d ! r)))"

definition opens :: "'s dispatcher \<Rightarrow> 's dispatcher \<Rightarrow> bool" where
  "opens d d' \<longleftrightarrow>
     (\<exists>opn. ops d' = ops d @ [opn] \<and> \<not> finished opn \<and>
        map_of (envelopes d) (op_id opn) = None \<and>
        envelopes d' = envelopes d @ [(op_id opn, length (ops d))]) \<and> now d' = now d"

definition idles :: "'s dispatcher \<Rightarrow> 's dispatcher \<Rightarrow> bool" where
  "idles d d' \<longleftrightarrow> ops d' = ops d \<and> envelopes d' = envelopes d \<and> now d \<le> now d'"

text \<open>The steps that reset the envelope map.\<close>

fun resets :: "event \<Rightarrow> bool" where
  "resets Close = True"
| "resets Destroy = True"
| "resets ev = False"

text \<open>The number of \<^verbatim>\<open>transport:up\<close> notifications in a list of effects.\<close>

definition ups :: "effect list \<Rightarrow> nat" where
  "ups es = count_list es (Trigger ''transport:up'' None)"

text \<open>The states a run goes through, the first one included.\<close>

fun trace :: "'s scheduler_class \<Rightarrow> event list \<Rightarrow> 's dispatcher \<Rightarrow> 's dispatcher list option" where
  "trace S [] d = Some [d]"
| "trace S (e # es) d =
     (case step S e d of None \<Rightarrow> None | Some d' \<Rightarrow> map_option ((#) d) (trace S es d'))"

text \<open>\<open>holds r d\<close>: the envelope of operation \<open>r\<close> is in the envelope map of \<open>d\<close>.\<close>

definition holds :: "nat \<Rightarrow> 's dispatcher \<Rightarrow> bool" where
  "holds r d \<longleftrightarrow> r \<in> snd ` set (envelopes d)"

text \<open>The number of steps of a trace in which the envelope of \<open>r\<close> leaves the map.\<close>

fun removals :: "nat \<Rightarrow> 's dispatcher list \<Rightarrow> nat" where
  "removals r (d # d' # ds) = (if holds r d \<and> \<not> holds r d' then 1 else 0) + removals r (d' # ds)"
| "removals r ds = 0"

text \<open>The steps in which a delivery attempt fails: the operation and the error.\<close>

fun failure :: "event \<Rightarrow> (nat \<times> error) option" where
  "failure (PoolRejected r e) = Some (r, e)"
| "failure (SendRejected r e) = Some (r, e)"
| "failure (AttemptTimeout r) = Some (r, TimeoutError)"
| "failure ev = None"

text \<open>The operation whose promise chain a step continues, if it is such a step.\<close>

fun target :: "event \<Rightarrow> nat option" where
  "target (Cancel r) = Some r"
| "target (Settle r) = Some r"
| "target (ResponseJob r) = Some r"
| "target (FinalJob r) = Some r"
| "target (PoolResolved r t) = Some r"
| "target (PoolRejected r e) = Some r"
| "target (AttemptTimeout r) = Some r"
| "target (SendFulfilled r) = Some r"
| "target (SendRejected r e) = Some r"
| "target (RetryTimer r) = Some r"
| "target (Deadline r) = Some r"
| "target ev = None"

text \<open>For concrete instances: a message, a transport, and a reply.\<close>

definition example_message :: message where
  "example_message = \<lparr>mid = ''1'', channel = ''/meta/connect'', connectionType = None\<rparr>"

definition example_websocket :: transport where
  "example_websocket = \<lparr>tref = 1, t_connectionType = ''websocket''\<rparr>"

definition inherited_reply :: reply where
  "inherited_reply = \<lparr>rid = ''toString'', successful = Some True, rchannel = ''/chat''\<rparr>"

text \<open>
  A scheduler class to pass as \<^verbatim>\<open>options.scheduler\<close>: it is always deliverable and offers
  the timeout and the interval it is given, whatever happens.
\<close>

definition constant_scheduler :: "nat \<Rightarrow> nat \<Rightarrow> unit scheduler_class" where
  "constant_scheduler tmo ivl =
     \<lparr>sch_new = (\<lambda>m opts t. ()),
      sch_isDeliverable = (\<lambda>s t. True),
      sch_send = (\<lambda>s t. s),
      sch_fail = (\<lambda>s t. s),
      sch_getTimeout = (\<lambda>s t. tmo),
      sch_getInterval = (\<lambda>s t. ivl),
      sch_succeed = (\<lambda>s t. s),
      sch_abort = (\<lambda>s t. s)\<rparr>"

text \<open>
  States of a dispatcher.  \<open>example_sent\<close>, with the scheduler of the spec: a message
  has been handed to a transport.  The others, with a constant scheduler.
  \<open>example_cancelled\<close>: the caller has sent a message and cancelled its future, whose
  handlers have not run.  \<open>example_resent\<close>: a message was sent, the dispatcher closed,
  the message sent again; the handlers of the first future have not run.
  \<open>example_late\<close>: then they have run.
\<close>

definition example_sent :: "spec_scheduler dispatcher" where
  "example_sent =
     the (run Scheduler [SendMessage example_message 1000 None, PoolResolved 0 example_websocket]
            (Dispatcher 5 0))"

definition example_cancelled :: "unit dispatcher" where
  "example_cancelled =
     the (run (constant_scheduler 1000 5) [SendMessage example_message 1000 None, Cancel 0]
            (Dispatcher 5 0))"

definition example_resent :: "unit dispatcher" where
  "example_resent =
     the (run (constant_scheduler 1000 5)
            [SendMessage example_message 1000 None, Close, SendMessage example_message 1000 None]
            (Dispatcher 5 0))"

definition example_late :: "unit dispatcher" where
  "example_late = the (step (constant_scheduler 1000 5) (Settle 0) example_resent)"

text \<open>
  \<open>example_far\<close>: the pool has rejected the first attempt of a message whose scheduler
  offers an interval of 2147483648 ms, at time 0.
\<close>

definition example_far :: "unit dispatcher" where
  "example_far =
     the (run (constant_scheduler 1000 2147483648)
            [SendMessage example_message 1000 None, PoolRejected 0 (OtherError ''no transport'')]
            (Dispatcher 5 0))"

text \<open>
  What holds of a request of transport \<open>t\<close> after any run: the promise is pending exactly
  as long as Node may still call the response callback; the listeners of the body are
  registered only on a resolved promise; without them nothing has been received.
\<close>

definition hinv :: "transport \<Rightarrow> request \<Rightarrow> bool" where
  "hinv t st \<longleftrightarrow>
     self st = t \<and>
     (io st = AwaitingResponse \<longleftrightarrow> promise st = Pending) \<and>
     (body st \<noteq> None \<longrightarrow> promise st = Resolved) \<and>
     (body st = None \<longrightarrow> (\<forall>v. Receive v \<notin> set (effects st)))"

text \<open>A stand-in for \<^verbatim>\<open>JSON.parse\<close> that reads the texts of the concrete instances.\<close>

definition example_parse :: "string \<Rightarrow> fault + json" where
  "example_parse b =
     (if b = ''[]'' then Inr (JArray [])
      else if b = ''null'' then Inr JNull
      else Inl SyntaxError)"

definition example_transport :: transport where
  "example_transport = \<lparr>tref = 1, t_connectionType = ''long-polling''\<rparr>"

section \<open>Basic facts\<close>

lemma emit_simps [simp]:
  "envelopes (emit es d) = envelopes d" "ops (emit es d) = ops d" "now (emit es d) = now d"
  "conn_state (emit es d) = conn_state d" "log (emit es d) = log d @ es"
  "advice_retry (emit es d) = advice_retry d"
  by (simp_all add: emit_def)

lemma upd_op_simps [simp]:
  "envelopes (upd_op r f d) = envelopes d" "ops (upd_op r f d) = (ops d)[r := f (ops d ! r)]"
  "now (upd_op r f d) = now d" "conn_state (upd_op r f d) = conn_state d"
  "log (upd_op r f d) = log d" "advice_retry (upd_op r f d) = advice_retry d"
  by (simp_all add: upd_op_def)

lemma delete_envelope_simps [simp]:
  "envelopes (delete_envelope i d) = filter (\<lambda>kv. fst kv \<noteq> i) (envelopes d)"
  "ops (delete_envelope i d) = ops d" "now (delete_envelope i d) = now d"
  "conn_state (delete_envelope i d) = conn_state d" "log (delete_envelope i d) = log d"
  "advice_retry (delete_envelope i d) = advice_retry d"
  by (simp_all add: delete_envelope_def)

lemma set_phase_simps [simp]:
  "envelopes (set_phase r p d) = envelopes d"
  "ops (set_phase r p d) = (ops d)[r := (ops d ! r)\<lparr>op_phase := p\<rparr>]"
  "now (set_phase r p d) = now d" "conn_state (set_phase r p d) = conn_state d"
  "log (set_phase r p d) = log d" "advice_retry (set_phase r p d) = advice_retry d"
  by (simp_all add: set_phase_def)

lemma scheduler_call_simps [simp]:
  "envelopes (scheduler_call r m f d) = envelopes d"
  "ops (scheduler_call r m f d) =
     (ops d)[r := (ops d ! r)\<lparr>op_scheduler := f (op_scheduler (ops d ! r)) (now d)\<rparr>]"
  "now (scheduler_call r m f d) = now d" "conn_state (scheduler_call r m f d) = conn_state d"
  "log (scheduler_call r m f d) = log d @ [SchedulerCall r m]"
  "advice_retry (scheduler_call r m f d) = advice_retry d"
  by (simp_all add: scheduler_call_def)

lemma response_simps [simp]:
  "op_id (response_orphaned q) = op_id q" "op_phase (response_orphaned q) = op_phase q"
  "op_scheduler (response_orphaned q) = op_scheduler q"
  "op_message (response_orphaned q) = op_message q"
  "op_id (response_timed_out q) = op_id q" "op_phase (response_timed_out q) = op_phase q"
  "op_scheduler (response_timed_out q) = op_scheduler q"
  "op_message (response_timed_out q) = op_message q"
  "op_id (response_cancelled q) = op_id q" "op_phase (response_cancelled q) = op_phase q"
  "op_scheduler (response_cancelled q) = op_scheduler q"
  "op_message (response_cancelled q) = op_message q"
  "pending (response_orphaned q) = pending q" "finished (response_orphaned q) = finished q"
  "pending (response_timed_out q) = pending q" "finished (response_timed_out q) = finished q"
  "pending (response_cancelled q) = pending q" "finished (response_cancelled q) = finished q"
  by (simp_all add: response_orphaned_def response_timed_out_def response_cancelled_def
      pending_def finished_def)

lemma phase_simps [simp]:
  "pending (q\<lparr>op_phase := Rejecting e\<rparr>)" "pending (q\<lparr>op_phase := AwaitTransport x\<rparr>)"
  "pending (q\<lparr>op_phase := AwaitReply t b resp x\<rparr>)" "pending (q\<lparr>op_phase := AwaitRetry x\<rparr>)"
  "\<not> pending (q\<lparr>op_phase := Cancelling\<rparr>)" "\<not> pending (q\<lparr>op_phase := Settled res\<rparr>)"
  "\<not> finished (q\<lparr>op_phase := Rejecting e\<rparr>)" "\<not> finished (q\<lparr>op_phase := AwaitTransport x\<rparr>)"
  "\<not> finished (q\<lparr>op_phase := AwaitReply t b resp x\<rparr>)" "\<not> finished (q\<lparr>op_phase := AwaitRetry x\<rparr>)"
  "\<not> finished (q\<lparr>op_phase := Cancelling\<rparr>)" "finished (q\<lparr>op_phase := Settled res\<rparr>)"
  by (simp_all add: pending_def finished_def)

lemma finished_not_pending: "finished q \<Longrightarrow> \<not> pending q"
  by (auto simp: finished_def pending_def split: phase.splits)

lemma inv_keep:
  assumes "inv d"
    and "envelopes d' = envelopes d" "length (ops d') = length (ops d)"
    and "\<And>r'. r' \<noteq> r \<Longrightarrow> ops d' ! r' = ops d ! r'"
    and "op_id (ops d' ! r) = op_id (ops d ! r)"
    and "finished (ops d' ! r) \<Longrightarrow> finished (ops d ! r)"
  shows "inv d'"
  using assms unfolding inv_def by metis

lemma inv_settle:
  assumes "inv d"
    and "envelopes d' = filter (\<lambda>kv. fst kv \<noteq> op_id (ops d ! r)) (envelopes d)"
    and "length (ops d') = length (ops d)"
    and "\<And>r'. r' \<noteq> r \<Longrightarrow> ops d' ! r' = ops d ! r'"
  shows "inv d'"
proof -
  have d: "distinct (map fst (envelopes d))" using assms(1) by (simp add: inv_def)
  have i2: "\<And>k r. (k, r) \<in> set (envelopes d) \<Longrightarrow>
        r < length (ops d) \<and> op_id (ops d ! r) = k \<and> \<not> finished (ops d ! r)"
    using assms(1) by (simp add: inv_def)
  have "distinct (map fst (envelopes d'))"
    using d by (simp add: assms(2) distinct_map_filter)
  moreover have "\<forall>k r'. (k, r') \<in> set (envelopes d') \<longrightarrow>
        r' < length (ops d') \<and> op_id (ops d' ! r') = k \<and> \<not> finished (ops d' ! r')"
  proof (intro allI impI)
    fix k r' assume "(k, r') \<in> set (envelopes d')"
    then have m: "(k, r') \<in> set (envelopes d)" and ne: "k \<noteq> op_id (ops d ! r)"
      by (auto simp: assms(2))
    from i2[OF m] ne have "r' \<noteq> r" by auto
    with i2[OF m] assms(3,4)
    show "r' < length (ops d') \<and> op_id (ops d' ! r') = k \<and> \<not> finished (ops d' ! r')"
      by simp
  qed
  ultimately show ?thesis unfolding inv_def by blast
qed

lemma inv_touch: "inv d \<Longrightarrow> touch r d d' \<Longrightarrow> inv d'"
  unfolding touch_def
  by (cases "finished (ops d' ! r) \<and> \<not> finished (ops d ! r)")
    (auto intro: inv_settle[where r = r and d = d] inv_keep[where r = r and d = d])

lemma full_touch:
  assumes "inv d" "full d" "r < length (ops d)" "touch r d d'"
  shows "full d'"
proof (cases "finished (ops d' ! r) \<and> \<not> finished (ops d ! r)")
  case False
  then have e: "envelopes d' = envelopes d" using assms(4) by (auto simp: touch_def)
  show ?thesis unfolding full_def
  proof (intro allI impI)
    fix r' assume a: "r' < length (ops d')" "\<not> finished (ops d' ! r')"
    show "(op_id (ops d' ! r'), r') \<in> set (envelopes d')"
    proof (cases "r' = r")
      case True
      have "finished (ops d ! r) \<Longrightarrow> finished (ops d' ! r)"
        using assms(4) by (simp add: touch_def finished_def)
      then have "\<not> finished (ops d ! r)" using a True by auto
      then show ?thesis using assms(2,3,4) True e by (auto simp: full_def touch_def)
    next
      case False
      then have "ops d' ! r' = ops d ! r'" using assms(4) by (simp add: touch_def)
      then show ?thesis using a assms(2,4) e by (auto simp: full_def touch_def)
    qed
  qed
next
  case True
  then have e: "envelopes d' = filter (\<lambda>kv. fst kv \<noteq> op_id (ops d ! r)) (envelopes d)"
    using assms(4) by (auto simp: touch_def)
  have d: "distinct (map fst (envelopes d))" using assms(1) by (simp add: inv_def)
  have uniq: "\<And>k a b. (k, a) \<in> set (envelopes d) \<Longrightarrow> (k, b) \<in> set (envelopes d) \<Longrightarrow> a = b"
    using d by (meson eq_key_imp_eq_value)
  have own: "(op_id (ops d ! r), r) \<in> set (envelopes d)"
    using assms(2,3) True by (simp add: full_def)
  show ?thesis unfolding full_def
  proof (intro allI impI)
    fix r' assume a: "r' < length (ops d')" "\<not> finished (ops d' ! r')"
    then have ne: "r' \<noteq> r" using True by auto
    then have same: "ops d' ! r' = ops d ! r'" using assms(4) by (simp add: touch_def)
    have m: "(op_id (ops d ! r'), r') \<in> set (envelopes d)"
      using a same assms(2,4) by (auto simp: full_def touch_def)
    have "op_id (ops d ! r') \<noteq> op_id (ops d ! r)"
    proof
      assume "op_id (ops d ! r') = op_id (ops d ! r)"
      with m own uniq show False using ne by metis
    qed
    then show "(op_id (ops d' ! r'), r') \<in> set (envelopes d')"
      using m same by (simp add: e)
  qed
qed

lemma touch_sendMessage_fulfilled:
  "r < length (ops d) \<Longrightarrow> \<not> finished (ops d ! r) \<Longrightarrow> pending (ops d ! r) \<Longrightarrow>
   touch r d (sendMessage_fulfilled S r rep d)"
  by (simp add: touch_def sendMessage_fulfilled_def sendMessage_finally_def)

lemma touch_sendMessage_rejected:
  "r < length (ops d) \<Longrightarrow> \<not> finished (ops d ! r) \<Longrightarrow>
   touch r d (sendMessage_rejected S r e d)"
  by (simp add: touch_def sendMessage_rejected_def sendMessage_finally_def)

lemma touch_sendMessage_cancelled:
  "r < length (ops d) \<Longrightarrow> \<not> finished (ops d ! r) \<Longrightarrow>
   touch r d (sendMessage_cancelled r d)"
  by (simp add: touch_def sendMessage_cancelled_def sendMessage_finally_def)

lemma touch_future_cancel:
  "r < length (ops d) \<Longrightarrow> touch r d (future_cancel r d)"
  by (auto simp: touch_def future_cancel_def dest: finished_not_pending)

lemma touch_sendMessage_deadline:
  "r < length (ops d) \<Longrightarrow> \<not> finished (ops d ! r) \<Longrightarrow>
   touch r d (sendMessage_deadline S r d)"
  by (simp add: touch_def sendMessage_deadline_def sendMessage_rejected_def
      sendMessage_finally_def)

lemma touch_attemptSend:
  "r < length (ops d) \<Longrightarrow> pending (ops d ! r) \<Longrightarrow> touch r d (attemptSend S r d)"
  by (auto simp: touch_def attemptSend_def Let_def dest: finished_not_pending)

lemma touch_attemptSend_failed:
  "r < length (ops d) \<Longrightarrow> pending (ops d ! r) \<Longrightarrow> touch r d (attemptSend_failed S r e d)"
  by (auto simp: touch_def attemptSend_failed_def awaitRetry_def sendMessage_rejected_def
      sendMessage_finally_def Let_def dest: finished_not_pending)

lemma touch_attemptSend_timeout:
  "r < length (ops d) \<Longrightarrow> pending (ops d ! r) \<Longrightarrow> touch r d (attemptSend_timeout S r t d)"
  by (auto simp: touch_def attemptSend_timeout_def attemptSend_failed_def awaitRetry_def
      sendMessage_rejected_def sendMessage_finally_def Let_def dest: finished_not_pending)

lemma touch_send_rejected:
  "r < length (ops d) \<Longrightarrow> pending (ops d ! r) \<Longrightarrow> touch r d (send_rejected S r e d)"
  by (auto simp: touch_def send_rejected_def attemptSend_failed_def awaitRetry_def
      sendMessage_rejected_def sendMessage_finally_def Let_def dest: finished_not_pending)

lemma touch_attemptSend_transport:
  "r < length (ops d) \<Longrightarrow> pending (ops d ! r) \<Longrightarrow> touch r d (attemptSend_transport S r t d)"
  by (auto simp: touch_def attemptSend_transport_def Let_def pending_def finished_def
      split: phase.splits)

lemma touch_send_fulfilled:
  "r < length (ops d) \<Longrightarrow> touch r d (send_fulfilled S r d)"
  by (auto simp: touch_def send_fulfilled_def sendMessage_fulfilled_def sendMessage_finally_def
      pending_def finished_def split: phase.splits option.splits)

lemma touch_envelope_resolve:
  "r < length (ops d) \<Longrightarrow> touch r d (envelope_resolve r rep d)"
  by (auto simp: touch_def envelope_resolve_def pending_def finished_def
      split: option.splits resolver.splits)

lemma touch_response_fulfilled:
  "r < length (ops d) \<Longrightarrow> touch r d (response_fulfilled S r d)"
  by (auto simp: touch_def response_fulfilled_def sendMessage_fulfilled_def
      sendMessage_finally_def Let_def pending_def finished_def
      split: phase.splits option.splits)

lemma touch_response_finally:
  "r < length (ops d) \<Longrightarrow> touch r d (response_finally r d)"
  by (auto simp: touch_def response_finally_def pending_def finished_def)

lemma future_cancel_frame:
  "length (ops (future_cancel r d)) = length (ops d)"
  "now (future_cancel r d) = now d"
  "envelopes (future_cancel r d) = envelopes d"
  by (auto simp: future_cancel_def)

lemma future_cancel_other:
  "r' \<noteq> r \<Longrightarrow> ops (future_cancel r d) ! r' = ops d ! r'"
  by (simp add: future_cancel_def)

lemma future_cancel_at:
  "r' < length (ops d) \<Longrightarrow>
   ops (future_cancel r d) ! r' = ops d ! r' \<or>
   (pending (ops d ! r') \<and> op_phase (ops (future_cancel r d) ! r') = Cancelling \<and>
    op_id (ops (future_cancel r d) ! r') = op_id (ops d ! r'))"
  by (cases "r' = r") (simp_all add: future_cancel_def)

lemma fold_cancel_frame:
  "length (ops (fold (\<lambda>kv. future_cancel (snd kv)) xs d)) = length (ops d)"
  "now (fold (\<lambda>kv. future_cancel (snd kv)) xs d) = now d"
  "envelopes (fold (\<lambda>kv. future_cancel (snd kv)) xs d) = envelopes d"
  by (induction xs arbitrary: d) (simp_all add: future_cancel_frame)

lemma fold_cancel_at:
  "r < length (ops d) \<Longrightarrow>
   ops (fold (\<lambda>kv. future_cancel (snd kv)) xs d) ! r = ops d ! r \<or>
   (pending (ops d ! r) \<and>
    op_phase (ops (fold (\<lambda>kv. future_cancel (snd kv)) xs d) ! r) = Cancelling \<and>
    op_id (ops (fold (\<lambda>kv. future_cancel (snd kv)) xs d) ! r) = op_id (ops d ! r))"
proof (induction xs arbitrary: d)
  case Nil
  then show ?case by simp
next
  case (Cons x xs)
  let ?d1 = "future_cancel (snd x) d"
  have lt: "r < length (ops ?d1)" using Cons.prems by (simp add: future_cancel_frame)
  note ih = Cons.IH[OF lt]
  note a = future_cancel_at[OF Cons.prems, of "snd x"]
  show ?case
  proof (cases "ops ?d1 ! r = ops d ! r")
    case True
    then show ?thesis using ih by simp
  next
    case False
    then have c: "pending (ops d ! r)" "op_phase (ops ?d1 ! r) = Cancelling"
      "op_id (ops ?d1 ! r) = op_id (ops d ! r)"
      using a by auto
    then have "\<not> pending (ops ?d1 ! r)" by (simp add: pending_def)
    then show ?thesis using ih c by auto
  qed
qed

lemma closes_cancelPending: "closes d (cancelPending d)"
  unfolding closes_def cancelPending_def
  using fold_cancel_at[of _ "d\<lparr>envelopes := []\<rparr>" "envelopes d"]
  by (simp add: fold_cancel_frame)

lemma closes_close: "closes d (close d)"
  using closes_cancelPending[of d] by (simp add: closes_def close_def)

lemma closes_destroy: "closes d (destroy d)"
  using closes_close[of "disconnecting (emit [StopListening] d)"]
  by (simp add: destroy_def closes_def disconnecting_def)

lemma sendMessage_cases:
  "idles d (snd (sendMessage S m t opts d)) \<or> opens d (snd (sendMessage S m t opts d))"
proof (cases "envelope_at (envelopes d) (mid m)")
  case (Own r)
  then show ?thesis by (simp add: sendMessage_def idles_def)
next
  case Inherited
  then show ?thesis by (simp add: sendMessage_def idles_def)
next
  case Undefined
  then have "map_of (envelopes d) (mid m) = None"
    by (simp add: envelope_at_def split: option.splits)
  then have "opens d (snd (sendMessage S m t opts d))"
    using Undefined by (simp add: sendMessage_def opens_def attemptSend_def Let_def finished_def)
  then show ?thesis ..
qed

lemma handleResponse_cases:
  assumes "inv d"
  shows "idles d (handleResponse rep d) \<or>
     (\<exists>r. r < length (ops d) \<and> touch r d (handleResponse rep d))"
proof (cases "envelope_at (envelopes d) (rid rep)")
  case (Own r)
  then have "map_of (envelopes d) (rid rep) = Some r"
    by (simp add: envelope_at_def split: option.splits if_splits)
  then have "(rid rep, r) \<in> set (envelopes d)" by (rule map_of_SomeD)
  with assms have r: "r < length (ops d)" by (auto simp: inv_def)
  show ?thesis
  proof (cases "successful rep \<noteq> None \<and> env_resolve (ops d ! r) \<noteq> None")
    case True
    have "touch r d (envelope_resolve r rep d)" using r by (rule touch_envelope_resolve)
    then have "touch r d (handleResponse rep d)"
      using True Own by (simp add: handleResponse_def touch_def trigger_def Let_def)
    with r show ?thesis by blast
  next
    case False
    then show ?thesis using Own by (auto simp: handleResponse_def idles_def trigger_def Let_def)
  qed
next
  case Inherited
  then show ?thesis by (simp add: handleResponse_def idles_def trigger_def Let_def)
next
  case Undefined
  then show ?thesis by (simp add: handleResponse_def idles_def trigger_def Let_def)
qed

lemma step_target:
  assumes "step S ev d = Some d'" "target ev = Some r"
  shows "r < length (ops d) \<and> touch r d d'"
proof (cases ev)
  case (Cancel r')
  then show ?thesis using assms touch_future_cancel[of r d]
    by (auto simp: step_def split: if_splits)
next
  case (Settle r')
  then show ?thesis
    using assms touch_sendMessage_rejected[of r d S] touch_sendMessage_cancelled[of r d]
    by (auto simp: step_def finished_def split: if_splits phase.splits)
next
  case (ResponseJob r')
  then show ?thesis using assms touch_response_fulfilled[of r d S]
    by (auto simp: step_def split: if_splits)
next
  case (FinalJob r')
  then show ?thesis using assms touch_response_finally[of r d]
    by (auto simp: step_def split: if_splits)
next
  case (PoolResolved r' t)
  then show ?thesis using assms touch_attemptSend_transport[of r d S t]
    by (auto simp: step_def pending_def split: if_splits phase.splits)
next
  case (PoolRejected r' err)
  then show ?thesis using assms touch_attemptSend_failed[of r d S err]
    by (auto simp: step_def pending_def split: if_splits phase.splits)
next
  case (AttemptTimeout r')
  then show ?thesis using assms touch_attemptSend_failed[of r d S TimeoutError]
      touch_attemptSend_timeout[of r d S]
    by (auto simp: step_def pending_def split: if_splits phase.splits)
next
  case (SendFulfilled r')
  then show ?thesis using assms touch_send_fulfilled[of r d S]
    by (auto simp: step_def split: if_splits phase.splits)
next
  case (SendRejected r' err)
  then show ?thesis using assms touch_send_rejected[of r d S err]
    by (auto simp: step_def pending_def split: if_splits phase.splits)
next
  case (RetryTimer r')
  then show ?thesis using assms touch_attemptSend[of r d S]
    by (auto simp: step_def pending_def split: if_splits phase.splits)
next
  case (Deadline r')
  then show ?thesis using assms touch_sendMessage_deadline[of r d S]
    by (auto simp: step_def dest: finished_not_pending split: if_splits)
qed (use assms in simp_all)

lemma step_cases:
  assumes "inv d" "step S e d = Some d'"
  shows "idles d d' \<or> opens d d' \<or> (closes d d' \<and> resets e) \<or>
     (\<exists>r. r < length (ops d) \<and> touch r d d')"
proof (cases "target e")
  case (Some r)
  then show ?thesis using step_target[OF assms(2)] by blast
next
  case None
  show ?thesis
  proof (cases e)
    case (SendMessage m t opts)
    then show ?thesis using assms(2) sendMessage_cases[of d S m t opts] by (auto simp: step_def)
  next
    case (HandleResponse rep)
    then show ?thesis using assms handleResponse_cases[of d rep] by (auto simp: step_def)
  next
    case Close
    then show ?thesis using assms closes_close[of d] by (auto simp: step_def)
  next
    case Destroy
    then show ?thesis using assms closes_destroy[of d] by (auto simp: step_def)
  next
    case Disconnecting
    then show ?thesis using assms by (auto simp: step_def idles_def disconnecting_def)
  next
    case (TransportDown t)
    then show ?thesis using assms by (auto simp: step_def idles_def transportDown_def)
  next
    case (Tick n)
    then show ?thesis using assms by (auto simp: step_def idles_def)
  qed (use None in simp_all)
qed

lemma inv_idles: "inv d \<Longrightarrow> idles d d' \<Longrightarrow> inv d'"
  by (simp add: inv_def idles_def)

lemma inv_closes: "closes d d' \<Longrightarrow> inv d'"
  by (simp add: inv_def closes_def)

lemma inv_opens:
  assumes "inv d" "opens d d'"
  shows "inv d'"
proof -
  from assms(2) obtain opn where o: "ops d' = ops d @ [opn]" "\<not> finished opn"
    "map_of (envelopes d) (op_id opn) = None"
    "envelopes d' = envelopes d @ [(op_id opn, length (ops d))]"
    by (auto simp: opens_def)
  have nk: "op_id opn \<notin> fst ` set (envelopes d)" using o(3) by (simp add: map_of_eq_None_iff)
  show ?thesis using assms(1) nk unfolding inv_def o(1) o(4)
    by (auto simp: nth_append o(2) less_Suc_eq)
qed

lemma full_opens:
  assumes "full d" "opens d d'"
  shows "full d'"
proof -
  from assms(2) obtain opn where o: "ops d' = ops d @ [opn]"
    "envelopes d' = envelopes d @ [(op_id opn, length (ops d))]"
    by (auto simp: opens_def)
  show ?thesis using assms(1) unfolding full_def o
    by (auto simp: nth_append less_Suc_eq)
qed

lemma inv_step: "inv d \<Longrightarrow> step S e d = Some d' \<Longrightarrow> inv d'"
  using step_cases[of d S e d'] inv_idles inv_opens inv_closes inv_touch by blast

lemma full_step:
  assumes "inv d" "full d" "step S e d = Some d'" "\<not> resets e"
  shows "full d'"
proof -
  from step_cases[OF assms(1,3)] assms(4) consider
    "idles d d'" | "opens d d'" | r where "r < length (ops d)" "touch r d d'"
    by blast
  then show ?thesis
  proof cases
    case 1
    then show ?thesis using assms(2) by (simp add: full_def idles_def)
  next
    case 2
    then show ?thesis using assms(2) by (rule full_opens[rotated])
  next
    case 3
    then show ?thesis using assms(1,2) full_touch by blast
  qed
qed

lemma inv_run: "inv d \<Longrightarrow> run S es d = Some d' \<Longrightarrow> inv d'"
  by (induction es arbitrary: d) (auto split: option.splits dest: inv_step)

lemma full_run:
  "inv d \<Longrightarrow> full d \<Longrightarrow> run S es d = Some d' \<Longrightarrow> \<forall>e \<in> set es. \<not> resets e \<Longrightarrow> full d'"
proof (induction es arbitrary: d)
  case Nil
  then show ?case by simp
next
  case (Cons e es)
  from Cons.prems(3) obtain d1 where s: "step S e d = Some d1" and r: "run S es d1 = Some d'"
    by (auto split: option.splits)
  have "inv d1" using Cons.prems(1) s by (rule inv_step)
  moreover have "full d1" using Cons.prems(1,2) s Cons.prems(4) by (auto intro: full_step)
  ultimately show ?case using Cons.IH r Cons.prems(4) by simp
qed

lemma inv_Dispatcher: "inv (Dispatcher retry t0)"
  by (simp add: inv_def Dispatcher_def)

lemma full_Dispatcher: "full (Dispatcher retry t0)"
  by (simp add: full_def Dispatcher_def)

lemma envelope_resolve_frame [simp]:
  "conn_state (envelope_resolve r rep d) = conn_state d"
  "envelopes (envelope_resolve r rep d) = envelopes d"
  "now (envelope_resolve r rep d) = now d"
  "log (envelope_resolve r rep d) = log d @ [ResolverCalled r rep]"
  "length (ops (envelope_resolve r rep d)) = length (ops d)"
  by (simp_all add: envelope_resolve_def)

section \<open>What a run preserves\<close>

lemma step_mono:
  assumes "inv d" "step S e d = Some d'"
  shows "length (ops d) \<le> length (ops d') \<and> now d \<le> now d' \<and>
    (r < length (ops d) \<longrightarrow> op_id (ops d' ! r) = op_id (ops d ! r)) \<and>
    (r < length (ops d) \<longrightarrow> \<not> pending (ops d ! r) \<longrightarrow> \<not> pending (ops d' ! r)) \<and>
    (r < length (ops d) \<longrightarrow> finished (ops d ! r) \<longrightarrow>
       op_phase (ops d' ! r) = op_phase (ops d ! r) \<and>
       op_scheduler (ops d' ! r) = op_scheduler (ops d ! r))"
proof -
  from step_cases[OF assms] consider
    "idles d d'" | "opens d d'" | "closes d d'"
    | r0 where "r0 < length (ops d)" "touch r0 d d'"
    by blast
  then show ?thesis
  proof cases
    case 1
    then show ?thesis by (simp add: idles_def)
  next
    case 2
    then show ?thesis by (auto simp: opens_def nth_append)
  next
    case 3
    then have "r < length (ops d) \<Longrightarrow> ops d' ! r = ops d ! r \<or>
        (pending (ops d ! r) \<and> op_phase (ops d' ! r) = Cancelling \<and>
         op_id (ops d' ! r) = op_id (ops d ! r))"
      by (simp add: closes_def)
    then show ?thesis using 3 by (auto simp: closes_def dest: finished_not_pending)
  next
    case 4
    then show ?thesis by (cases "r = r0") (auto simp: touch_def)
  qed
qed

lemma run_mono:
  assumes "inv d" "run S es d = Some d'"
  shows "length (ops d) \<le> length (ops d') \<and> now d \<le> now d' \<and>
    (r < length (ops d) \<longrightarrow> op_id (ops d' ! r) = op_id (ops d ! r)) \<and>
    (r < length (ops d) \<longrightarrow> \<not> pending (ops d ! r) \<longrightarrow> \<not> pending (ops d' ! r)) \<and>
    (r < length (ops d) \<longrightarrow> finished (ops d ! r) \<longrightarrow>
       op_phase (ops d' ! r) = op_phase (ops d ! r) \<and>
       op_scheduler (ops d' ! r) = op_scheduler (ops d ! r))"
  using assms
proof (induction es arbitrary: d)
  case Nil
  then show ?case by simp
next
  case (Cons e es)
  from Cons.prems(2) obtain d1 where s: "step S e d = Some d1" and r: "run S es d1 = Some d'"
    by (auto split: option.splits)
  have i1: "inv d1" using Cons.prems(1) s by (rule inv_step)
  note m = step_mono[OF Cons.prems(1) s, of r]
  note ih = Cons.IH[OF i1 r]
  have f: "r < length (ops d) \<Longrightarrow> finished (ops d ! r) \<Longrightarrow> finished (ops d1 ! r)"
    using m by (simp add: finished_def)
  show ?case using m ih f by (auto simp: less_le_trans)
qed

lemma run_append:
  "run S (es @ es') d = (case run S es d of None \<Rightarrow> None | Some d1 \<Rightarrow> run S es' d1)"
  by (induction es arbitrary: d) (simp_all split: option.splits)

lemma sendMessage_new:
  assumes "envelope_at (envelopes d) (mid m) = Undefined"
  shows "fst (sendMessage S m timeout opts d) = Some (length (ops d))"
    and "length (ops (snd (sendMessage S m timeout opts d))) = Suc (length (ops d))"
    and "op_id (ops (snd (sendMessage S m timeout opts d)) ! length (ops d)) = mid m"
    and "pending (ops (snd (sendMessage S m timeout opts d)) ! length (ops d))"
  using assms by (simp_all add: sendMessage_def attemptSend_def Let_def pending_def)

section \<open>Evaluation\<close>

text \<open>The equations that evaluate the model on concrete inputs.\<close>

lemmas eval =
  step_def sendMessage_def attemptSend_def attemptSend_failed_def attemptSend_transport_def
  attemptSend_timeout_def awaitRetry_def sendMessage_rejected_def sendMessage_fulfilled_def
  sendMessage_cancelled_def sendMessage_finally_def sendMessage_deadline_def send_fulfilled_def
  send_rejected_def envelope_resolve_def response_fulfilled_def response_finally_def
  response_orphaned_def response_timed_out_def response_cancelled_def
  future_cancel_def handleResponse_def trigger_def cancelPending_def close_def destroy_def
  disconnecting_def transportDown_def Dispatcher_def Scheduler_def constant_scheduler_def
  pending_def finished_def
  envelope_at_def object_prototype_def setTimeout_delay_def Let_def CONNECT_def UP_def
  example_message_def example_websocket_def inherited_reply_def

section \<open>Idempotence of sendMessage (C1)\<close>

lemma sendMessage_returns:
  assumes "inv d" "sendMessage S m timeout opts d = (Some p, d1)"
  shows "p < length (ops d1) \<and> op_id (ops d1 ! p) = mid m"
proof (cases "envelope_at (envelopes d) (mid m)")
  case (Own r)
  then have "map_of (envelopes d) (mid m) = Some r"
    by (simp add: envelope_at_def split: option.splits if_splits)
  then have "(mid m, r) \<in> set (envelopes d)" by (rule map_of_SomeD)
  then have "r < length (ops d) \<and> op_id (ops d ! r) = mid m" using assms(1) by (simp add: inv_def)
  then show ?thesis using assms(2) Own by (simp add: sendMessage_def)
next
  case Inherited
  then show ?thesis using assms(2) by (simp add: sendMessage_def)
next
  case Undefined
  note n = sendMessage_new[OF Undefined, of S timeout opts]
  then show ?thesis using assms(2) by simp
qed

lemma sendMessage_own:
  assumes "inv d" "p < length (ops d)" "holds p d"
  shows "sendMessage S m timeout opts d =
      (if mid m = op_id (ops d ! p) then (Some p, d) else sendMessage S m timeout opts d) \<and>
    \<not> finished (ops d ! p)"
proof -
  from assms(3) obtain k where k: "(k, p) \<in> set (envelopes d)" by (auto simp: holds_def)
  then have e: "k = op_id (ops d ! p)" "\<not> finished (ops d ! p)"
    using assms(1) by (auto simp: inv_def)
  have "distinct (map fst (envelopes d))" using assms(1) by (simp add: inv_def)
  then have "map_of (envelopes d) (op_id (ops d ! p)) = Some p"
    using k e(1) by (simp add: map_of_is_SomeI)
  then show ?thesis using e(2) by (simp add: sendMessage_def envelope_at_def)
qed

text \<open>
  Claim C1, as amended.  Let a call of \<^verbatim>\<open>sendMessage\<close> return the future \<open>p\<close>, and let
  anything happen afterwards.  As long as the envelope of \<open>p\<close> is in the envelope map, a
  call for a message with the same id returns \<open>p\<close> and leaves the dispatcher as it is: no
  scheduler is constructed, no envelope is created, nothing is sent; and the handlers of
  \<open>p\<close> have not all run, so that \<open>p\<close> is pending, or cancelled with its \<^verbatim>\<open>.finally\<close> still to
  run.  As long as neither \<^verbatim>\<open>close\<close> nor \<^verbatim>\<open>destroy\<close> has been called on the dispatcher, the
  envelope of \<open>p\<close> is in the map until the last handler of \<open>p\<close> has run.
\<close>

theorem sendMessage_idempotent:
  assumes "run S evs (Dispatcher retry t0) = Some d"
    and "sendMessage S m timeout opts d = (Some p, d1)"
    and "run S evs' d1 = Some d2"
    and "mid m' = mid m"
  shows "(holds p d2 \<longrightarrow>
            sendMessage S m' timeout' opts' d2 = (Some p, d2) \<and> \<not> finished (ops d2 ! p)) \<and>
         ((\<forall>e \<in> set (evs @ evs'). \<not> resets e) \<and> \<not> finished (ops d2 ! p) \<longrightarrow> holds p d2)"
proof -
  have i: "inv d" using inv_Dispatcher assms(1) by (rule inv_run)
  have s: "step S (SendMessage m timeout opts) d = Some d1" using assms(2) by (simp add: step_def)
  with i have i1: "inv d1" by (rule inv_step)
  then have i2: "inv d2" using assms(3) by (rule inv_run)
  from sendMessage_returns[OF i assms(2)]
  have lt: "p < length (ops d1)" and id1: "op_id (ops d1 ! p) = mid m" by simp_all
  have lt2: "p < length (ops d2)" and id2: "op_id (ops d2 ! p) = mid m"
    using run_mono[OF i1 assms(3), of p] lt id1 by auto
  have A: "sendMessage S m' timeout' opts' d2 = (Some p, d2) \<and> \<not> finished (ops d2 ! p)"
    if "holds p d2"
    using sendMessage_own[OF i2 lt2 that, of S m' timeout' opts'] id2 assms(4) by simp
  have B: "holds p d2"
    if a: "(\<forall>e \<in> set (evs @ evs'). \<not> resets e) \<and> \<not> finished (ops d2 ! p)"
  proof -
    have n: "\<forall>e \<in> set evs. \<not> resets e" "\<forall>e \<in> set evs'. \<not> resets e" using a by auto
    have "full d" using inv_Dispatcher full_Dispatcher assms(1) n(1) by (rule full_run)
    with i have "full d1" using s by (rule full_step) simp
    with i1 have "full d2" using assms(3) n(2) by (rule full_run)
    then have "(op_id (ops d2 ! p), p) \<in> set (envelopes d2)" using lt2 a by (simp add: full_def)
    then show ?thesis by (force simp: holds_def)
  qed
  show ?thesis using A B by blast
qed

theorem sendMessage_idempotent_witness:
  "sendMessage Scheduler \<lparr>mid = ''1'', channel = ''/chat'', connectionType = None\<rparr> 500 None
     example_sent = (Some 0, example_sent) \<and>
   op_phase (ops example_sent ! 0) = AwaitReply example_websocket False None 1000"
proof -
  let ?d0 = "Dispatcher 5 0 :: spec_scheduler dispatcher"
  let ?d1 = "snd (sendMessage Scheduler example_message 1000 None ?d0)"
  let ?evs = "[PoolResolved 0 example_websocket]"
  have a: "run Scheduler [] ?d0 = Some ?d0" by simp
  have b: "sendMessage Scheduler example_message 1000 None ?d0 = (Some 0, ?d1)"
    by (simp add: sendMessage_def Dispatcher_def envelope_at_def object_prototype_def
        example_message_def)
  have c: "run Scheduler ?evs ?d1 = Some example_sent"
    by (simp add: example_sent_def eval)
  have d: "mid \<lparr>mid = ''1'', channel = ''/chat'', connectionType = None\<rparr> = mid example_message"
    by (simp add: example_message_def)
  have e: "(\<forall>e \<in> set ([] @ ?evs). \<not> resets e) \<and> \<not> finished (ops example_sent ! 0)"
    by (simp add: example_sent_def eval)
  have f: "op_phase (ops example_sent ! 0) = AwaitReply example_websocket False None 1000"
    by (simp add: example_sent_def eval)
  from sendMessage_idempotent[OF a b c d, of 500 None] e f show ?thesis by blast
qed

text \<open>
  Claim C1 as stated fails: the future it promises is pending.  After the caller has
  cancelled the future of a message, and until the handlers of that future have run, its
  envelope is in the map and a call for the same id returns the cancelled future.
\<close>

theorem sendMessage_returns_cancelled:
  "map_of (envelopes example_cancelled) ''1'' = Some 0 \<and>
   op_phase (ops example_cancelled ! 0) = Cancelling \<and>
   sendMessage (constant_scheduler 1000 5) example_message 1000 None example_cancelled =
     (Some 0, example_cancelled)"
  by (simp add: example_cancelled_def eval)

text \<open>
  The \<^verbatim>\<open>.finally\<close> of \<^verbatim>\<open>sendMessage\<close> deletes by id (line 118).  When a dispatcher is closed
  and the message sent again before the handlers of the cancelled future have run, they
  delete the envelope of the second future: it stays pending with no envelope, and a third
  call constructs a third scheduler.
\<close>

lemma finally_deletes_newer_envelope:
  "map_of (envelopes example_resent) ''1'' = Some 1 \<and>
   envelopes example_late = [] \<and>
   op_phase (ops example_late ! 1) = AwaitTransport 1000 \<and>
   fst (sendMessage (constant_scheduler 1000 5) example_message 1000 None example_late) = Some 2 \<and>
   log (snd (sendMessage (constant_scheduler 1000 5) example_message 1000 None example_late)) =
     log example_late @
       [SchedulerNew 2, SchedulerCall 2 SIsDeliverable, SchedulerCall 2 SSend, PoolGet,
        SchedulerCall 2 SGetTimeout]"
  by (simp add: example_late_def example_resent_def eval)

section \<open>The envelope map (C2)\<close>

lemma trace_run:
  "trace S es d = Some ds \<Longrightarrow> (\<exists>ds'. ds = d # ds') \<and> run S es d = Some (last ds)"
proof (induction es arbitrary: d ds)
  case Nil
  then show ?case by auto
next
  case (Cons e es)
  from Cons.prems obtain d1 ds1 where s: "step S e d = Some d1"
    and t: "trace S es d1 = Some ds1" and ds: "ds = d # ds1"
    by (auto split: option.splits)
  from Cons.IH[OF t] show ?case using s ds by auto
qed

lemma inv_trace: "inv d \<Longrightarrow> trace S es d = Some ds \<Longrightarrow> d' \<in> set ds \<Longrightarrow> inv d'"
proof (induction es arbitrary: d ds)
  case Nil
  then show ?case by auto
next
  case (Cons e es)
  from Cons.prems(2) obtain d1 ds1 where s: "step S e d = Some d1"
    and t: "trace S es d1 = Some ds1" and ds: "ds = d # ds1"
    by (auto split: option.splits)
  have "inv d1" using Cons.prems(1) s by (rule inv_step)
  then show ?case using Cons.IH[OF _ t] Cons.prems(1,3) ds by auto
qed

lemma holds_less: "inv d \<Longrightarrow> holds r d \<Longrightarrow> r < length (ops d) \<and> \<not> finished (ops d ! r)"
  unfolding inv_def holds_def by force

lemma step_holds:
  assumes "inv d" "step S e d = Some d'"
  shows "(r < length (ops d) \<longrightarrow> \<not> holds r d \<longrightarrow> \<not> holds r d') \<and>
    (length (ops d) \<le> r \<longrightarrow> r < length (ops d') \<longrightarrow> holds r d')"
proof -
  from step_cases[OF assms] consider
    "idles d d'" | "opens d d'" | "closes d d'"
    | r0 where "r0 < length (ops d)" "touch r0 d d'"
    by blast
  then show ?thesis
  proof cases
    case 1
    then show ?thesis by (simp add: idles_def holds_def)
  next
    case 2
    then show ?thesis by (auto simp: opens_def holds_def)
  next
    case 3
    then show ?thesis by (simp add: closes_def holds_def)
  next
    case 4
    then show ?thesis by (auto simp: touch_def holds_def split: if_splits)
  qed
qed

lemma run_gone:
  assumes "inv d" "run S es d = Some d'" "r < length (ops d)" "\<not> holds r d"
  shows "\<not> holds r d'"
  using assms
proof (induction es arbitrary: d)
  case Nil
  then show ?case by simp
next
  case (Cons e es)
  from Cons.prems(2) obtain d1 where s: "step S e d = Some d1" and r: "run S es d1 = Some d'"
    by (auto split: option.splits)
  have i1: "inv d1" using Cons.prems(1) s by (rule inv_step)
  have "r < length (ops d1)" using step_mono[OF Cons.prems(1) s, of r] Cons.prems(3) by simp
  moreover have "\<not> holds r d1" using step_holds[OF Cons.prems(1) s, of r] Cons.prems(3,4) by simp
  ultimately show ?case using Cons.IH[OF i1 r] by simp
qed

lemma removals_count:
  assumes "inv d" "trace S es d = Some ds" "r < length (ops (last ds))"
  shows "removals r ds =
    (if (r < length (ops d) \<longrightarrow> holds r d) \<and> \<not> holds r (last ds) then 1 else 0)"
  using assms
proof (induction es arbitrary: d ds)
  case Nil
  then show ?case by auto
next
  case (Cons e es)
  from Cons.prems(2) obtain d1 ds1 where s: "step S e d = Some d1"
    and t: "trace S es d1 = Some ds1" and ds: "ds = d # ds1"
    by (auto split: option.splits)
  from trace_run[OF t] obtain ds' where ds1: "ds1 = d1 # ds'"
    and run1: "run S es d1 = Some (last ds1)" by blast
  have i1: "inv d1" using Cons.prems(1) s by (rule inv_step)
  have last: "last ds = last ds1" using ds ds1 by simp
  have lt: "r < length (ops (last ds1))" using Cons.prems(3) last by simp
  note ih = Cons.IH[OF i1 t lt]
  note m = step_mono[OF Cons.prems(1) s, of r]
  note h = step_holds[OF Cons.prems(1) s, of r]
  note l = holds_less[OF Cons.prems(1), of r] holds_less[OF i1, of r]
  have rem: "removals r ds = (if holds r d \<and> \<not> holds r d1 then 1 else 0) + removals r ds1"
    using ds ds1 by simp
  consider (held) "holds r d" | (gone) "r < length (ops d)" "\<not> holds r d"
    | (future) "length (ops d) \<le> r"
    using l by linarith
  then show ?case
  proof cases
    case held
    then have lt1: "r < length (ops d1)" using l m by auto
    have "\<not> holds r d1 \<Longrightarrow> \<not> holds r (last ds1)"
      using run_gone[OF i1 run1 lt1] by simp
    then show ?thesis using held rem ih last lt1 by auto
  next
    case gone
    then have "r < length (ops d1)" "\<not> holds r d1" using h m by auto
    then show ?thesis using gone rem ih last by auto
  next
    case future
    then have n: "\<not> holds r d" using l by auto
    show ?thesis
    proof (cases "r < length (ops d1)")
      case True
      then have "holds r d1" using h future by simp
      then show ?thesis using n future rem ih last True by auto
    next
      case False
      then have "\<not> holds r d1" using l by auto
      then show ?thesis using n future rem ih last False by auto
    qed
  qed
qed

text \<open>
  Claim C2, as amended.  In every state of every run from a new dispatcher: the ids in
  the envelope map are distinct, so an id has at most one envelope; an envelope is stored
  under the id of its message; and the handlers of its operation have not all run, so
  the map never holds the entry of a fulfilled or rejected future, nor that of a cancelled
  future whose \<^verbatim>\<open>.finally\<close> has run.  Over the whole run the envelope of an operation
  leaves the map once if it is not there at the end, by whatever step (reply, error,
  timeout, deadline, the \<^verbatim>\<open>.finally\<close> of a cancelled future, \<^verbatim>\<open>close\<close> or \<^verbatim>\<open>destroy\<close>), and
  never otherwise: an envelope that has left does not come back.
\<close>

theorem envelope_removed_once:
  assumes "trace S evs (Dispatcher retry t0) = Some ds"
  shows "(\<forall>d \<in> set ds.
            distinct (map fst (envelopes d)) \<and>
            (\<forall>k r. (k, r) \<in> set (envelopes d) \<longrightarrow>
               r < length (ops d) \<and> op_id (ops d ! r) = k \<and> \<not> finished (ops d ! r))) \<and>
         (\<forall>r < length (ops (last ds)).
            removals r ds = (if holds r (last ds) then 0 else 1))"
proof (intro conjI ballI allI impI)
  fix d assume "d \<in> set ds"
  with inv_Dispatcher assms have i: "inv d" by (rule inv_trace)
  then show "distinct (map fst (envelopes d))" by (simp add: inv_def)
  show "\<And>k r. (k, r) \<in> set (envelopes d) \<Longrightarrow> r < length (ops d)"
    and "\<And>k r. (k, r) \<in> set (envelopes d) \<Longrightarrow> op_id (ops d ! r) = k"
    and "\<And>k r. (k, r) \<in> set (envelopes d) \<Longrightarrow> \<not> finished (ops d ! r)"
    using i by (simp_all add: inv_def)
next
  fix r assume "r < length (ops (last ds))"
  from removals_count[OF inv_Dispatcher assms this]
  show "removals r ds = (if holds r (last ds) then 0 else 1)"
    by (simp add: Dispatcher_def)
qed

theorem envelope_removed_once_witness:
  "removals 0 (the (trace Scheduler [SendMessage example_message 1000 None, Close, Settle 0]
      (Dispatcher 5 0))) = 1"
proof -
  let ?evs = "[SendMessage example_message 1000 None, Close, Settle 0]"
  let ?d0 = "Dispatcher 5 0 :: spec_scheduler dispatcher"
  let ?ds = "the (trace Scheduler ?evs ?d0)"
  have t: "trace Scheduler ?evs ?d0 = Some ?ds" by (simp add: eval)
  have l: "0 < length (ops (last ?ds))" "\<not> holds 0 (last ?ds)"
    by (simp_all add: eval holds_def)
  from envelope_removed_once[OF t] l show ?thesis by simp
qed

text \<open>
  Claim C2 as stated fails: cancellation settles the future at once, and its envelope
  is removed by a handler, which runs later.  In between the map holds the entry of a
  cancelled future.
\<close>

theorem cancelled_entry_in_map:
  "envelopes example_cancelled = [(''1'', 0)] \<and> op_phase (ops example_cancelled ! 0) = Cancelling"
  by (simp add: example_cancelled_def eval)

section \<open>Correlation of replies (C3)\<close>

lemma envelope_resolve_phase:
  "op_phase (ops (envelope_resolve r rep d) ! r') = op_phase (ops d ! r')"
proof (cases "r' = r")
  case False
  then show ?thesis by (simp add: envelope_resolve_def)
next
  case True
  show ?thesis
  proof (cases "r < length (ops d)")
    case True
    then show ?thesis using \<open>r' = r\<close>
      by (simp add: envelope_resolve_def split: option.splits resolver.splits)
  next
    case False
    then show ?thesis by (simp add: envelope_resolve_def list_update_beyond)
  qed
qed

text \<open>
  What \<^verbatim>\<open>handleResponse\<close> does, for every state and every reply.  It calls a resolver iff the
  reply has a \<^verbatim>\<open>successful\<close> field and the envelope map has an own entry for its id whose
  resolver is set; the resolver is the one of that envelope and it gets this reply.  It
  triggers \<^verbatim>\<open>message\<close> iff the reply has no \<^verbatim>\<open>successful\<close> field or the lookup of its id finds
  nothing, and then with this reply.  It changes the phase of no operation, so that no
  future is rejected.
\<close>

lemma handleResponse_effects:
  "\<exists>es. log (handleResponse rep d) = log d @ es \<and>
     (\<forall>r rep'. ResolverCalled r rep' \<in> set es \<longleftrightarrow>
        rep' = rep \<and> successful rep \<noteq> None \<and> envelope_at (envelopes d) (rid rep) = Own r \<and>
        env_resolve (ops d ! r) \<noteq> None) \<and>
     (\<forall>rep'. Trigger ''message'' rep' \<in> set es \<longleftrightarrow>
        rep' = Some rep \<and>
        (successful rep = None \<or> envelope_at (envelopes d) (rid rep) = Undefined)) \<and>
     (\<forall>r. op_phase (ops (handleResponse rep d) ! r) = op_phase (ops d ! r))"
proof (cases "successful rep \<noteq> None \<and>
    (\<exists>r. envelope_at (envelopes d) (rid rep) = Own r \<and> env_resolve (ops d ! r) \<noteq> None)")
  case True
  then obtain r where r: "envelope_at (envelopes d) (rid rep) = Own r"
    "env_resolve (ops d ! r) \<noteq> None"
    and s: "successful rep \<noteq> None" by blast
  let ?up = "if conn_state d = UP then [] else [Trigger ''transport:up'' None]"
  have l: "log (handleResponse rep d) = log d @ (ResolverCalled r rep # ?up)"
    using r s by (simp add: handleResponse_def Let_def trigger_def)
  have o: "ops (handleResponse rep d) = ops (envelope_resolve r rep d)"
    using r s by (simp add: handleResponse_def Let_def trigger_def)
  show ?thesis
    apply (rule exI[of _ "ResolverCalled r rep # ?up"])
    using l o r s envelope_resolve_phase[of r rep d] by auto
next
  case False
  let ?up = "if conn_state d = UP then [] else [Trigger ''transport:up'' None]"
  let ?msg = "if successful rep = None \<or> envelope_at (envelopes d) (rid rep) = Undefined
     then [Trigger ''message'' (Some rep)] else []"
  have l: "log (handleResponse rep d) = log d @ (?msg @ ?up)"
    using False by (auto simp: handleResponse_def Let_def trigger_def split: lookup.splits)
  have o: "ops (handleResponse rep d) = ops d"
    using False by (auto simp: handleResponse_def Let_def trigger_def split: lookup.splits)
  show ?thesis
    apply (rule exI[of _ "?msg @ ?up"])
    using l o False by auto
qed

text \<open>
  For a reply whose id is not the name of a member of \<^verbatim>\<open>Object.prototype\<close> the lookup finds
  an envelope iff the map has one for the id, and the claim holds as it is written.
\<close>

lemma handleResponse_correlates:
  assumes "rid rep \<notin> set object_prototype"
  shows "\<exists>es. log (handleResponse rep d) = log d @ es \<and>
     (\<forall>r rep'. ResolverCalled r rep' \<in> set es \<longleftrightarrow>
        rep' = rep \<and> successful rep \<noteq> None \<and> map_of (envelopes d) (rid rep) = Some r \<and>
        env_resolve (ops d ! r) \<noteq> None) \<and>
     (\<forall>rep'. Trigger ''message'' rep' \<in> set es \<longleftrightarrow>
        rep' = Some rep \<and> \<not> (successful rep \<noteq> None \<and> map_of (envelopes d) (rid rep) \<noteq> None)) \<and>
     (\<forall>r e. op_phase (ops (handleResponse rep d) ! r) = Settled (Rejected e) \<longrightarrow>
        op_phase (ops d ! r) = Settled (Rejected e))"
proof -
  have a: "envelope_at (envelopes d) (rid rep) = Own r \<longleftrightarrow> map_of (envelopes d) (rid rep) = Some r"
    for r
    using assms by (simp add: envelope_at_def split: option.splits)
  have b: "envelope_at (envelopes d) (rid rep) = Undefined \<longleftrightarrow> map_of (envelopes d) (rid rep) = None"
    using assms by (simp add: envelope_at_def split: option.splits)
  from handleResponse_effects[of rep d] show ?thesis unfolding a b by auto
qed

text \<open>
  Claim C3 fails on the code for a reply whose id is the name of a member that the
  envelope map inherits from \<^verbatim>\<open>Object.prototype\<close>.  A new dispatcher has no envelope.  For
  the reply \<^verbatim>\<open>{id: 'toString', successful: true, channel: '/chat'}\<close> the lookup of line 201
  finds the inherited function, the test of line 203 passes, the test of line 204 finds
  no resolver, and the reply is dropped: no resolver is called and \<^verbatim>\<open>message\<close> is not
  triggered.  Only \<^verbatim>\<open>transport:up\<close> is.
\<close>

theorem handleResponse_drops_inherited_id:
  "envelopes (Dispatcher 5 0 :: spec_scheduler dispatcher) = [] \<and>
   log (handleResponse inherited_reply (Dispatcher 5 0 :: spec_scheduler dispatcher)) =
     [Trigger ''transport:up'' None]"
  by (simp add: eval)

section \<open>The retry loop (C4)\<close>

lemma attemptSend_failed_result:
  assumes "r < length (ops d)"
  shows "log (attemptSend_failed S r e d) =
      log d @ [SchedulerCall r SFail, SchedulerCall r SIsDeliverable,
        SchedulerCall r
          (if sch_isDeliverable S (sch_fail S (op_scheduler (ops d ! r)) (now d)) (now d)
           then SGetInterval else SAbort)]"
    and "sch_isDeliverable S (sch_fail S (op_scheduler (ops d ! r)) (now d)) (now d) \<Longrightarrow>
      op_scheduler (ops (attemptSend_failed S r e d) ! r) =
        sch_fail S (op_scheduler (ops d ! r)) (now d) \<and>
      op_phase (ops (attemptSend_failed S r e d) ! r) =
        AwaitRetry (now d + setTimeout_delay
          (sch_getInterval S (sch_fail S (op_scheduler (ops d ! r)) (now d)) (now d)))"
    and "\<not> sch_isDeliverable S (sch_fail S (op_scheduler (ops d ! r)) (now d)) (now d) \<Longrightarrow>
      op_phase (ops (attemptSend_failed S r e d) ! r) = Settled (Rejected e)"
  using assms
  by (simp_all add: attemptSend_failed_def awaitRetry_def sendMessage_rejected_def
      sendMessage_finally_def Let_def)

lemma failure_step_shape:
  assumes "failure ev = Some (r, e)" "step S ev d = Some d1"
  shows "r < length (ops d) \<and>
    (\<exists>pre d0. (\<forall>x \<in> set pre. \<exists>t. x = SendCancel t) \<and> d1 = attemptSend_failed S r e d0 \<and>
       log d0 = log d @ pre \<and> now d0 = now d \<and> length (ops d0) = length (ops d) \<and>
       op_scheduler (ops d0 ! r) = op_scheduler (ops d ! r))"
proof -
  have lt: "r < length (ops d)"
    using assms by (cases ev) (auto simp: step_def split: if_splits)
  consider (plain) "d1 = attemptSend_failed S r e d"
    | (timeout) t where "d1 = attemptSend_timeout S r t d" "e = TimeoutError"
    | (send) "d1 = send_rejected S r e d"
    using assms by (cases ev) (auto simp: step_def split: if_splits phase.splits)
  then show ?thesis
  proof cases
    case plain
    then show ?thesis using lt
      by (intro conjI exI[of _ "[]"] exI[of _ d]) simp_all
  next
    case timeout
    let ?d0 = "emit [SendCancel t] (upd_op r response_timed_out d)"
    have "d1 = attemptSend_failed S r e ?d0" using timeout by (simp add: attemptSend_timeout_def)
    then show ?thesis using lt
      by (intro conjI exI[of _ "[SendCancel t]"] exI[of _ ?d0]) simp_all
  next
    case send
    let ?d0 = "upd_op r response_orphaned d"
    have "d1 = attemptSend_failed S r e ?d0" using send by (simp add: send_rejected_def)
    then show ?thesis using lt
      by (intro conjI exI[of _ "[]"] exI[of _ ?d0]) simp_all
  qed
qed

lemma failure_step:
  assumes "failure ev = Some (r, e)" "step S ev d = Some d1"
  shows "r < length (ops d) \<and>
    (\<exists>pre. (\<forall>x \<in> set pre. \<exists>t. x = SendCancel t) \<and>
       log d1 = log d @ pre @ [SchedulerCall r SFail, SchedulerCall r SIsDeliverable,
        SchedulerCall r
          (if sch_isDeliverable S (sch_fail S (op_scheduler (ops d ! r)) (now d)) (now d)
           then SGetInterval else SAbort)]) \<and>
    (if sch_isDeliverable S (sch_fail S (op_scheduler (ops d ! r)) (now d)) (now d)
     then op_scheduler (ops d1 ! r) = sch_fail S (op_scheduler (ops d ! r)) (now d) \<and>
          op_phase (ops d1 ! r) =
            AwaitRetry (now d + setTimeout_delay
              (sch_getInterval S (sch_fail S (op_scheduler (ops d ! r)) (now d)) (now d)))
     else op_phase (ops d1 ! r) = Settled (Rejected e))"
proof -
  from failure_step_shape[OF assms] obtain pre d0 where lt: "r < length (ops d)"
    and pre: "\<forall>x \<in> set pre. \<exists>t. x = SendCancel t"
    and d1: "d1 = attemptSend_failed S r e d0"
    and same: "log d0 = log d @ pre" "now d0 = now d" "length (ops d0) = length (ops d)"
      "op_scheduler (ops d0 ! r) = op_scheduler (ops d ! r)"
    by blast
  have lt0: "r < length (ops d0)" using lt same by simp
  have "\<exists>pre. (\<forall>x \<in> set pre. \<exists>t. x = SendCancel t) \<and>
       log d1 = log d @ pre @ [SchedulerCall r SFail, SchedulerCall r SIsDeliverable,
        SchedulerCall r
          (if sch_isDeliverable S (sch_fail S (op_scheduler (ops d ! r)) (now d)) (now d)
           then SGetInterval else SAbort)]"
    using attemptSend_failed_result(1)[OF lt0, of S e] d1 same pre
    by (intro exI[of _ pre]) simp
  then show ?thesis
    using lt attemptSend_failed_result(2,3)[OF lt0, of S e] d1 same by auto
qed

lemma step_target_other:
  assumes "step S ev d = Some d'" "target ev = Some r'" "r \<noteq> r'"
  shows "ops d' ! r = ops d ! r"
  using step_target[OF assms(1,2)] assms(3) by (simp add: touch_def)

lemma step_target_retry:
  assumes "step S ev d = Some d'" "target ev = Some r" "op_phase (ops d ! r) = AwaitRetry x"
  shows "\<not> pending (ops d' ! r) \<or> x \<le> now d \<or>
    (op_phase (ops d' ! r) = AwaitRetry x \<and> op_scheduler (ops d' ! r) = op_scheduler (ops d ! r))"
  using assms
  by (cases ev)
    (auto simp: step_def future_cancel_def sendMessage_finally_def pending_def
      sendMessage_deadline_def sendMessage_rejected_def response_fulfilled_def
      response_finally_def Let_def split: if_splits option.splits)

lemma envelope_resolve_retry:
  assumes "r < length (ops d)" "op_phase (ops d ! r) = AwaitRetry x"
  shows "op_phase (ops (envelope_resolve r0 rep d) ! r) = AwaitRetry x \<and>
    op_scheduler (ops (envelope_resolve r0 rep d) ! r) = op_scheduler (ops d ! r)"
proof (cases "r0 = r")
  case True
  then show ?thesis using assms
    by (simp add: envelope_resolve_def split: option.splits resolver.splits)
next
  case False
  then have "ops (envelope_resolve r0 rep d) ! r = ops d ! r"
    by (simp add: envelope_resolve_def)
  then show ?thesis using assms by simp
qed

lemma step_await_retry:
  assumes "inv d" "r < length (ops d)" "op_phase (ops d ! r) = AwaitRetry x"
    and "step S ev d = Some d'" "now d < x"
  shows "\<not> pending (ops d' ! r) \<or>
    (op_phase (ops d' ! r) = AwaitRetry x \<and> op_scheduler (ops d' ! r) = op_scheduler (ops d ! r))"
proof (cases "target ev")
  case (Some r')
  show ?thesis
  proof (cases "r' = r")
    case True
    then show ?thesis using step_target_retry[OF assms(4) _ assms(3)] Some assms(5) by auto
  next
    case False
    then have "ops d' ! r = ops d ! r" using step_target_other[OF assms(4) Some] by simp
    then show ?thesis using assms(3) by simp
  qed
next
  case None
  show ?thesis
  proof (cases ev)
    case (SendMessage m t opts)
    then have "idles d d' \<or> opens d d'"
      using assms(4) sendMessage_cases[of d S m t opts] by (auto simp: step_def)
    then have "ops d' ! r = ops d ! r" using assms(2) by (auto simp: idles_def opens_def nth_append)
    then show ?thesis using assms(3) by simp
  next
    case (HandleResponse rep)
    then have d': "d' = handleResponse rep d" using assms(4) by (simp add: step_def)
    have "ops d' = ops d \<or> (\<exists>r0. ops d' = ops (envelope_resolve r0 rep d))"
      unfolding d' by (auto simp: handleResponse_def Let_def trigger_def split: lookup.splits)
    then show ?thesis using envelope_resolve_retry[OF assms(2,3)] assms(3) by auto
  next
    case Close
    then have "closes d d'" using assms(4) closes_close[of d] by (auto simp: step_def)
    then have "ops d' ! r = ops d ! r \<or> op_phase (ops d' ! r) = Cancelling"
      using assms(2) by (auto simp: closes_def)
    then show ?thesis using assms(3) by (auto simp: pending_def)
  next
    case Destroy
    then have "closes d d'" using assms(4) closes_destroy[of d] by (auto simp: step_def)
    then have "ops d' ! r = ops d ! r \<or> op_phase (ops d' ! r) = Cancelling"
      using assms(2) by (auto simp: closes_def)
    then show ?thesis using assms(3) by (auto simp: pending_def)
  next
    case Disconnecting
    then show ?thesis using assms(3,4) by (auto simp: step_def disconnecting_def)
  next
    case (TransportDown t)
    then show ?thesis using assms(3,4) by (auto simp: step_def transportDown_def)
  next
    case (Tick n)
    then show ?thesis using assms(3,4) by (auto simp: step_def)
  qed (use None in simp_all)
qed

lemma run_await_retry:
  assumes "inv d" "r < length (ops d)"
    and "\<not> pending (ops d ! r) \<or> (op_phase (ops d ! r) = AwaitRetry x \<and> op_scheduler (ops d ! r) = s)"
    and "run S evs d = Some d'" "now d' < x"
  shows "\<not> pending (ops d' ! r) \<or> (op_phase (ops d' ! r) = AwaitRetry x \<and> op_scheduler (ops d' ! r) = s)"
  using assms
proof (induction evs arbitrary: d)
  case Nil
  then show ?case by simp
next
  case (Cons ev evs)
  from Cons.prems(4) obtain d1 where s: "step S ev d = Some d1" and r: "run S evs d1 = Some d'"
    by (auto split: option.splits)
  have i1: "inv d1" using Cons.prems(1) s by (rule inv_step)
  note m = step_mono[OF Cons.prems(1) s, of r]
  have lt1: "r < length (ops d1)" using m Cons.prems(2) by simp
  have "now d1 \<le> now d'" using run_mono[OF i1 r, of r] by simp
  then have nd: "now d < x" using m Cons.prems(5) by simp
  have "\<not> pending (ops d1 ! r) \<or> (op_phase (ops d1 ! r) = AwaitRetry x \<and> op_scheduler (ops d1 ! r) = s)"
  proof (cases "pending (ops d ! r)")
    case False
    then show ?thesis using m Cons.prems(2) by simp
  next
    case True
    then have p: "op_phase (ops d ! r) = AwaitRetry x" "op_scheduler (ops d ! r) = s"
      using Cons.prems(3) by simp_all
    from step_await_retry[OF Cons.prems(1,2) p(1) s nd] p(2) show ?thesis by auto
  qed
  from Cons.IH[OF i1 lt1 this r Cons.prems(5)] show ?case .
qed

text \<open>
  Claim C4, as amended.  A delivery attempt of the operation \<open>r\<close> fails when the pool
  rejects, the send rejects, or one of the two per-attempt timeouts fires.  In the step
  of its handlers the dispatcher calls \<^verbatim>\<open>fail()\<close> and only then \<^verbatim>\<open>isDeliverable()\<close>, on the
  scheduler that has recorded the failure.  If it is still deliverable, the dispatcher
  calls \<^verbatim>\<open>getInterval()\<close> and arms a timer with the result: the operation waits for the
  delay that \<^verbatim>\<open>setTimeout\<close> makes of it, which is the interval itself when that is between 1
  and 2147483647 ms, and 1 ms otherwise.  Until the clock has reached the end of that
  delay the operation either stays as it is, with the same scheduler, or is no longer
  pending; and the delay timer, the only step that starts the next attempt, is not
  enabled.  If it is not deliverable, the future is rejected with the failure in the same
  step, and the operation keeps that outcome and its scheduler for ever: there is no
  further attempt.
\<close>

theorem retry_loop:
  assumes "run S evs (Dispatcher retry t0) = Some d"
    and "failure ev = Some (r, e)"
    and "step S ev d = Some d1"
  shows "(\<exists>pre. (\<forall>x \<in> set pre. \<exists>t. x = SendCancel t) \<and>
       log d1 = log d @ pre @ [SchedulerCall r SFail, SchedulerCall r SIsDeliverable,
        SchedulerCall r
          (if sch_isDeliverable S (sch_fail S (op_scheduler (ops d ! r)) (now d)) (now d)
           then SGetInterval else SAbort)]) \<and>
    (if sch_isDeliverable S (sch_fail S (op_scheduler (ops d ! r)) (now d)) (now d)
     then op_scheduler (ops d1 ! r) = sch_fail S (op_scheduler (ops d ! r)) (now d) \<and>
          op_phase (ops d1 ! r) =
            AwaitRetry (now d + setTimeout_delay
              (sch_getInterval S (sch_fail S (op_scheduler (ops d ! r)) (now d)) (now d))) \<and>
          (\<forall>evs' d2. run S evs' d1 = Some d2 \<longrightarrow>
             now d2 < now d + setTimeout_delay
               (sch_getInterval S (sch_fail S (op_scheduler (ops d ! r)) (now d)) (now d)) \<longrightarrow>
             \<not> pending (ops d2 ! r) \<or>
             (op_phase (ops d2 ! r) = op_phase (ops d1 ! r) \<and>
              op_scheduler (ops d2 ! r) = op_scheduler (ops d1 ! r))) \<and>
          (\<forall>d2 x. r < length (ops d2) \<longrightarrow> op_phase (ops d2 ! r) = AwaitRetry x \<longrightarrow>
             step S (RetryTimer r) d2 = (if x \<le> now d2 then Some (attemptSend S r d2) else None))
     else op_phase (ops d1 ! r) = Settled (Rejected e) \<and>
          (\<forall>evs' d2. run S evs' d1 = Some d2 \<longrightarrow>
             op_phase (ops d2 ! r) = Settled (Rejected e) \<and>
             op_scheduler (ops d2 ! r) = op_scheduler (ops d1 ! r)))"
proof -
  let ?s1 = "sch_fail S (op_scheduler (ops d ! r)) (now d)"
  let ?due = "now d + setTimeout_delay (sch_getInterval S ?s1 (now d))"
  have i: "inv d" using inv_Dispatcher assms(1) by (rule inv_run)
  have i1: "inv d1" using i assms(3) by (rule inv_step)
  note f = failure_step[OF assms(2,3)]
  have lt: "r < length (ops d)" using f by simp
  have lt1: "r < length (ops d1)" using step_mono[OF i assms(3), of r] lt by simp
  have timer: "\<forall>d2 x. r < length (ops d2) \<longrightarrow> op_phase (ops d2 ! r) = AwaitRetry x \<longrightarrow>
      step S (RetryTimer r) d2 = (if x \<le> now d2 then Some (attemptSend S r d2) else None)"
    by (simp add: step_def)
  show ?thesis
  proof (cases "sch_isDeliverable S ?s1 (now d)")
    case True
    then have p: "op_scheduler (ops d1 ! r) = ?s1" "op_phase (ops d1 ! r) = AwaitRetry ?due"
      using f by simp_all
    have w: "\<forall>evs' d2. run S evs' d1 = Some d2 \<longrightarrow> now d2 < ?due \<longrightarrow>
        \<not> pending (ops d2 ! r) \<or>
        (op_phase (ops d2 ! r) = op_phase (ops d1 ! r) \<and>
         op_scheduler (ops d2 ! r) = op_scheduler (ops d1 ! r))"
    proof (intro allI impI)
      fix evs' d2 assume r2: "run S evs' d1 = Some d2" and n2: "now d2 < ?due"
      have "\<not> pending (ops d1 ! r) \<or>
        (op_phase (ops d1 ! r) = AwaitRetry ?due \<and> op_scheduler (ops d1 ! r) = ?s1)"
        using p by simp
      from run_await_retry[OF i1 lt1 this r2 n2] p
      show "\<not> pending (ops d2 ! r) \<or>
        (op_phase (ops d2 ! r) = op_phase (ops d1 ! r) \<and>
         op_scheduler (ops d2 ! r) = op_scheduler (ops d1 ! r))"
        by simp
    qed
    show ?thesis using True f p w timer by simp
  next
    case False
    then have p: "op_phase (ops d1 ! r) = Settled (Rejected e)" using f by simp
    then have st: "finished (ops d1 ! r)" by (simp add: finished_def)
    have "\<forall>evs' d2. run S evs' d1 = Some d2 \<longrightarrow>
        op_phase (ops d2 ! r) = Settled (Rejected e) \<and>
        op_scheduler (ops d2 ! r) = op_scheduler (ops d1 ! r)"
      using run_mono[OF i1, of S _ _ r] lt1 st p by metis
    then show ?thesis using False f p by simp
  qed
qed

theorem retry_loop_witness:
  "op_phase (ops (the (run Scheduler
       [SendMessage example_message 1000 None,
        PoolRejected 0 (OtherError ''no transport'')] (Dispatcher 5 0))) ! 0) = AwaitRetry 5 \<and>
   op_phase (ops (the (run Scheduler
       [SendMessage example_message 1000 (Some \<lparr>attempts = Some 1, deadline = None\<rparr>),
        PoolRejected 0 (OtherError ''no transport'')] (Dispatcher 5 0))) ! 0) =
     Settled (Rejected (OtherError ''no transport''))"
proof -
  let ?m = "example_message"
  let ?ev = "PoolRejected 0 (OtherError ''no transport'')"
  let ?d0 = "Dispatcher 5 0 :: spec_scheduler dispatcher"
  let ?a = "the (run Scheduler [SendMessage ?m 1000 None] ?d0)"
  let ?b = "the (run Scheduler [SendMessage ?m 1000 (Some \<lparr>attempts = Some 1, deadline = None\<rparr>)] ?d0)"
  have a: "run Scheduler [SendMessage ?m 1000 None] ?d0 = Some ?a" by (simp add: eval)
  have b: "run Scheduler [SendMessage ?m 1000 (Some \<lparr>attempts = Some 1, deadline = None\<rparr>)] ?d0 = Some ?b"
    by (simp add: eval)
  have f: "failure ?ev = Some (0, OtherError ''no transport'')" by simp
  have sa: "step Scheduler ?ev ?a = Some (the (step Scheduler ?ev ?a))" by (simp add: eval)
  have sb: "step Scheduler ?ev ?b = Some (the (step Scheduler ?ev ?b))" by (simp add: eval)
  have ra: "run Scheduler [SendMessage ?m 1000 None, ?ev] ?d0 = step Scheduler ?ev ?a"
    by (simp add: eval)
  have rb: "run Scheduler [SendMessage ?m 1000 (Some \<lparr>attempts = Some 1, deadline = None\<rparr>), ?ev] ?d0
      = step Scheduler ?ev ?b"
    by (simp add: eval)
  have da: "sch_isDeliverable Scheduler (sch_fail Scheduler (op_scheduler (ops ?a ! 0)) (now ?a)) (now ?a)"
    "now ?a + setTimeout_delay
       (sch_getInterval Scheduler (sch_fail Scheduler (op_scheduler (ops ?a ! 0)) (now ?a)) (now ?a)) = 5"
    by (simp_all add: eval)
  have db: "\<not> sch_isDeliverable Scheduler (sch_fail Scheduler (op_scheduler (ops ?b ! 0)) (now ?b)) (now ?b)"
    by (simp add: eval)
  from retry_loop[OF a f sa] da
  have 1: "op_phase (ops (the (step Scheduler ?ev ?a)) ! 0) = AwaitRetry 5" by simp
  from retry_loop[OF b f sb] db
  have 2: "op_phase (ops (the (step Scheduler ?ev ?b)) ! 0) = Settled (Rejected (OtherError ''no transport''))"
    by simp
  show ?thesis using 1 2 ra rb by simp
qed

text \<open>
  Claim C4 as stated fails for an interval above 2147483647 ms, which \<^verbatim>\<open>setTimeout\<close>
  replaces by 1 ms.  A first attempt fails at time 0; the scheduler is deliverable and
  its \<^verbatim>\<open>getInterval()\<close> returns 2147483648; the retry timer is due at time 1, and at time 1
  the next attempt starts: the scheduler is told \<^verbatim>\<open>send()\<close> and the pool is asked for a
  transport.
\<close>

theorem retry_before_interval:
  "now example_far = 0 \<and>
   sch_getInterval (constant_scheduler 1000 2147483648) (op_scheduler (ops example_far ! 0)) 0 =
     2147483648 \<and>
   op_phase (ops example_far ! 0) = AwaitRetry 1 \<and>
   now (the (run (constant_scheduler 1000 2147483648) [Tick 1, RetryTimer 0] example_far)) = 1 \<and>
   log (the (run (constant_scheduler 1000 2147483648) [Tick 1, RetryTimer 0] example_far)) =
     log example_far @
       [SchedulerCall 0 SIsDeliverable, SchedulerCall 0 SSend, PoolGet, SchedulerCall 0 SGetTimeout]"
  by (simp add: example_far_def constant_scheduler_def eval)

section \<open>Failing fast (C5)\<close>

lemma attemptSend_undeliverable:
  assumes "r < length (ops d)" "\<not> sch_isDeliverable S (op_scheduler (ops d ! r)) (now d)"
  shows "log (attemptSend S r d) = log d @ [SchedulerCall r SIsDeliverable]"
    and "op_phase (ops (attemptSend S r d) ! r) = Rejecting NoLongerDeliverable"
    and "length (ops (attemptSend S r d)) = length (ops d)"
    and "now (attemptSend S r d) = now d"
    and "envelopes (attemptSend S r d) = envelopes d"
    and "op_id (ops (attemptSend S r d) ! r) = op_id (ops d ! r)"
  using assms by (simp_all add: attemptSend_def Let_def)

lemma settle_rejecting:
  assumes "r < length (ops d)" "op_phase (ops d ! r) = Rejecting e"
  shows "step S (Settle r) d = Some (sendMessage_rejected S r e d)"
    and "log (sendMessage_rejected S r e d) = log d @ [SchedulerCall r SAbort]"
    and "op_phase (ops (sendMessage_rejected S r e d) ! r) = Settled (Rejected e)"
    and "now (sendMessage_rejected S r e d) = now d"
    and "map_of (envelopes (sendMessage_rejected S r e d)) (op_id (ops d ! r)) = None"
  using assms
  by (auto simp: step_def sendMessage_rejected_def sendMessage_finally_def map_of_eq_None_iff)

text \<open>
  Claim C5.  When the scheduler is not deliverable at the start of an attempt, the attempt
  calls nothing but \<^verbatim>\<open>isDeliverable()\<close> and returns a promise rejected with
  \<^verbatim>\<open>No longer deliverable\<close>; its handlers call \<^verbatim>\<open>abort()\<close>, remove the envelope and reject the
  future with that error, at the same clock time.  The pool is not asked for a transport
  and nothing is sent.  The first conjunct is the first attempt, inside \<^verbatim>\<open>sendMessage\<close>,
  which constructs a scheduler when the lookup of the id finds nothing; the second is a
  later attempt, started by the delay of \<^verbatim>\<open>_awaitRetry\<close>.
\<close>

theorem undeliverable_fails_fast:
  "(envelope_at (envelopes d) (mid m) = Undefined \<and>
    \<not> sch_isDeliverable S
        (sch_new S m
           \<lparr>so_timeout = timeout, so_interval = advice_retry d,
            so_attempts = (case opts of None \<Rightarrow> None | Some q \<Rightarrow> attempts q)\<rparr> (now d))
        (now d) \<longrightarrow>
    (\<exists>p d1 d2.
       sendMessage S m timeout opts d = (Some p, d1) \<and>
       log d1 = log d @ [SchedulerNew p, SchedulerCall p SIsDeliverable] \<and>
       op_phase (ops d1 ! p) = Rejecting NoLongerDeliverable \<and>
       step S (Settle p) d1 = Some d2 \<and>
       log d2 = log d1 @ [SchedulerCall p SAbort] \<and>
       op_phase (ops d2 ! p) = Settled (Rejected NoLongerDeliverable) \<and>
       map_of (envelopes d2) (mid m) = None \<and> now d2 = now d)) \<and>
   (r < length (ops d) \<and> op_phase (ops d ! r) = AwaitRetry x \<and> x \<le> now d \<and>
    \<not> sch_isDeliverable S (op_scheduler (ops d ! r)) (now d) \<longrightarrow>
    (\<exists>d1 d2.
       step S (RetryTimer r) d = Some d1 \<and>
       log d1 = log d @ [SchedulerCall r SIsDeliverable] \<and>
       op_phase (ops d1 ! r) = Rejecting NoLongerDeliverable \<and>
       step S (Settle r) d1 = Some d2 \<and>
       log d2 = log d1 @ [SchedulerCall r SAbort] \<and>
       op_phase (ops d2 ! r) = Settled (Rejected NoLongerDeliverable) \<and> now d2 = now d))"
proof (intro conjI impI)
  assume a: "envelope_at (envelopes d) (mid m) = Undefined \<and>
    \<not> sch_isDeliverable S
        (sch_new S m
           \<lparr>so_timeout = timeout, so_interval = advice_retry d,
            so_attempts = (case opts of None \<Rightarrow> None | Some q \<Rightarrow> attempts q)\<rparr> (now d))
        (now d)"
  let ?p = "length (ops d)"
  let ?d1 = "snd (sendMessage S m timeout opts d)"
  have s: "sendMessage S m timeout opts d = (Some ?p, ?d1)"
    using a by (simp add: sendMessage_def Let_def)
  have l1: "log ?d1 = log d @ [SchedulerNew ?p, SchedulerCall ?p SIsDeliverable]"
    and p1: "op_phase (ops ?d1 ! ?p) = Rejecting NoLongerDeliverable"
    and n1: "length (ops ?d1) = Suc ?p" and t1: "now ?d1 = now d"
    and i1: "op_id (ops ?d1 ! ?p) = mid m"
    using a by (simp_all add: sendMessage_def attemptSend_def Let_def)
  have lt: "?p < length (ops ?d1)" using n1 by simp
  note st = settle_rejecting[OF lt p1, of S]
  show "\<exists>p d1 d2.
       sendMessage S m timeout opts d = (Some p, d1) \<and>
       log d1 = log d @ [SchedulerNew p, SchedulerCall p SIsDeliverable] \<and>
       op_phase (ops d1 ! p) = Rejecting NoLongerDeliverable \<and>
       step S (Settle p) d1 = Some d2 \<and>
       log d2 = log d1 @ [SchedulerCall p SAbort] \<and>
       op_phase (ops d2 ! p) = Settled (Rejected NoLongerDeliverable) \<and>
       map_of (envelopes d2) (mid m) = None \<and> now d2 = now d"
    using s l1 p1 st t1 i1 by (intro exI[of _ ?p] exI[of _ ?d1]
        exI[of _ "sendMessage_rejected S ?p NoLongerDeliverable ?d1"]) simp
next
  assume a: "r < length (ops d) \<and> op_phase (ops d ! r) = AwaitRetry x \<and> x \<le> now d \<and>
    \<not> sch_isDeliverable S (op_scheduler (ops d ! r)) (now d)"
  let ?d1 = "attemptSend S r d"
  have s: "step S (RetryTimer r) d = Some ?d1" using a by (simp add: step_def)
  from a have lt: "r < length (ops d)"
    and nd: "\<not> sch_isDeliverable S (op_scheduler (ops d ! r)) (now d)" by simp_all
  note u = attemptSend_undeliverable[OF lt nd]
  have lt1: "r < length (ops ?d1)" using u(3) lt by simp
  note st = settle_rejecting[OF lt1 u(2), of S]
  show "\<exists>d1 d2.
       step S (RetryTimer r) d = Some d1 \<and>
       log d1 = log d @ [SchedulerCall r SIsDeliverable] \<and>
       op_phase (ops d1 ! r) = Rejecting NoLongerDeliverable \<and>
       step S (Settle r) d1 = Some d2 \<and>
       log d2 = log d1 @ [SchedulerCall r SAbort] \<and>
       op_phase (ops d2 ! r) = Settled (Rejected NoLongerDeliverable) \<and> now d2 = now d"
    using s u st by (intro exI[of _ ?d1]
        exI[of _ "sendMessage_rejected S r NoLongerDeliverable ?d1"]) simp
qed


theorem undeliverable_fails_fast_witness:
  "log (the (step Scheduler (Settle 0)
      (snd (sendMessage Scheduler \<lparr>mid = ''1'', channel = ''/chat'', connectionType = None\<rparr> 1000
         (Some \<lparr>attempts = Some 0, deadline = None\<rparr>) (Dispatcher 5 0))))) =
     [SchedulerNew 0, SchedulerCall 0 SIsDeliverable, SchedulerCall 0 SAbort] \<and>
   log (the (step Scheduler (Settle 0)
      (snd (sendMessage Scheduler \<lparr>mid = ''1'', channel = ''/chat'', connectionType = None\<rparr> 0
         None (Dispatcher 5 0))))) =
     [SchedulerNew 0, SchedulerCall 0 SIsDeliverable, SchedulerCall 0 SAbort] \<and>
   log (the (step Scheduler (Settle 0) (the (step Scheduler (RetryTimer 0)
      \<lparr>advice_retry = 5, envelopes = [(''1'', 0)],
        ops = [\<lparr>op_id = ''1'',
               op_message = \<lparr>mid = ''1'', channel = ''/chat'', connectionType = None\<rparr>,
               op_scheduler = \<lparr>made = 1, allowed = Some 1, due = 1000, interval = 5, failures = 1\<rparr>,
               env_resolve = None, op_reply = None, op_finals = 0, op_deadline = 60000,
               op_phase = AwaitRetry 5\<rparr>],
        conn_state = 0, now = 5, log = []\<rparr>)))) =
     [SchedulerCall 0 SIsDeliverable, SchedulerCall 0 SAbort]"
proof -
  let ?m = "\<lparr>mid = ''1'', channel = ''/chat'', connectionType = None\<rparr>"
  let ?d0 = "Dispatcher 5 0 :: spec_scheduler dispatcher"
  let ?o1 = "Some \<lparr>attempts = Some 0, deadline = None\<rparr>"
  let ?w = "\<lparr>advice_retry = 5, envelopes = [(''1'', 0)],
        ops = [\<lparr>op_id = ''1'',
               op_message = \<lparr>mid = ''1'', channel = ''/chat'', connectionType = None\<rparr>,
               op_scheduler = \<lparr>made = 1, allowed = Some 1, due = 1000, interval = 5, failures = 1\<rparr>,
               env_resolve = None, op_reply = None, op_finals = 0, op_deadline = 60000,
               op_phase = AwaitRetry 5\<rparr>],
        conn_state = 0, now = 5, log = []\<rparr>"
  have h1: "envelope_at (envelopes ?d0) (mid ?m) = Undefined \<and>
    \<not> sch_isDeliverable Scheduler
        (sch_new Scheduler ?m
           \<lparr>so_timeout = 1000, so_interval = advice_retry ?d0,
            so_attempts = (case ?o1 of None \<Rightarrow> None | Some q \<Rightarrow> attempts q)\<rparr> (now ?d0))
        (now ?d0)"
    by (simp add: Dispatcher_def Scheduler_def envelope_at_def object_prototype_def)
  have h2: "envelope_at (envelopes ?d0) (mid ?m) = Undefined \<and>
    \<not> sch_isDeliverable Scheduler
        (sch_new Scheduler ?m
           \<lparr>so_timeout = 0, so_interval = advice_retry ?d0,
            so_attempts = (case None of None \<Rightarrow> None | Some q \<Rightarrow> attempts q)\<rparr> (now ?d0))
        (now ?d0)"
    by (simp add: Dispatcher_def Scheduler_def envelope_at_def object_prototype_def)
  have h3: "0 < length (ops ?w) \<and> op_phase (ops ?w ! 0) = AwaitRetry 5 \<and> 5 \<le> now ?w \<and>
    \<not> sch_isDeliverable Scheduler (op_scheduler (ops ?w ! 0)) (now ?w)"
    by (simp add: Scheduler_def)
  from undeliverable_fails_fast[of ?d0 ?m Scheduler 1000 ?o1 0 0] h1
  obtain p d1 d2 where a: "sendMessage Scheduler ?m 1000 ?o1 ?d0 = (Some p, d1)"
    "log d1 = log ?d0 @ [SchedulerNew p, SchedulerCall p SIsDeliverable]"
    "step Scheduler (Settle p) d1 = Some d2" "log d2 = log d1 @ [SchedulerCall p SAbort]"
    by blast
  have p0: "p = 0" using a(1)
    by (simp add: sendMessage_def Dispatcher_def Let_def envelope_at_def object_prototype_def)
  have 1: "log (the (step Scheduler (Settle 0) (snd (sendMessage Scheduler ?m 1000 ?o1 ?d0)))) =
     [SchedulerNew 0, SchedulerCall 0 SIsDeliverable, SchedulerCall 0 SAbort]"
    using a p0 by (simp add: Dispatcher_def)
  from undeliverable_fails_fast[of ?d0 ?m Scheduler 0 None 0 0] h2
  obtain p' d1' d2' where b: "sendMessage Scheduler ?m 0 None ?d0 = (Some p', d1')"
    "log d1' = log ?d0 @ [SchedulerNew p', SchedulerCall p' SIsDeliverable]"
    "step Scheduler (Settle p') d1' = Some d2'" "log d2' = log d1' @ [SchedulerCall p' SAbort]"
    by blast
  have p0': "p' = 0" using b(1)
    by (simp add: sendMessage_def Dispatcher_def Let_def envelope_at_def object_prototype_def)
  have 2: "log (the (step Scheduler (Settle 0) (snd (sendMessage Scheduler ?m 0 None ?d0)))) =
     [SchedulerNew 0, SchedulerCall 0 SIsDeliverable, SchedulerCall 0 SAbort]"
    using b p0' by (simp add: Dispatcher_def)
  from undeliverable_fails_fast[of ?w ?m Scheduler 0 None 0 5] h3
  obtain e1 e2 where c: "step Scheduler (RetryTimer 0) ?w = Some e1"
    "log e1 = log ?w @ [SchedulerCall 0 SIsDeliverable]"
    "step Scheduler (Settle 0) e1 = Some e2" "log e2 = log e1 @ [SchedulerCall 0 SAbort]"
    by blast
  have 3: "log (the (step Scheduler (Settle 0) (the (step Scheduler (RetryTimer 0) ?w)))) =
     [SchedulerCall 0 SIsDeliverable, SchedulerCall 0 SAbort]"
    using c by simp
  show ?thesis using 1 2 3 by blast
qed

section \<open>Connectivity (C6)\<close>

lemma ups_simps:
  "ups [] = 0" "ups (es @ fs) = ups es + ups fs"
  "ups (e # es) = (if e = Trigger ''transport:up'' None then 1 else 0) + ups es"
  by (simp_all add: ups_def)

lemma envelope_resolve_ups:
  "ups (log (envelope_resolve r rep d)) = ups (log d)"
  by (simp add: ups_simps)

lemma handleResponse_conn: "conn_state (handleResponse rep d) = UP"
  by (simp add: handleResponse_def Let_def trigger_def split: lookup.splits)

lemma handleResponse_ups:
  "ups (log (handleResponse rep d)) = ups (log d) + (if conn_state d = UP then 0 else 1)"
  by (simp add: handleResponse_def Let_def trigger_def ups_simps split: lookup.splits)

lemma fold_handleResponse_ups:
  "ups (log (fold handleResponse reps d)) =
     ups (log d) + (if conn_state d = UP \<or> reps = [] then 0 else 1)"
proof (induction reps arbitrary: d)
  case Nil
  then show ?case by simp
next
  case (Cons rep reps)
  show ?case
    by (simp add: Cons.IH handleResponse_conn handleResponse_ups)
qed

lemma fold_handleResponse_conn:
  "conn_state (fold handleResponse reps d) = (if reps = [] then conn_state d else UP)"
  by (induction reps arbitrary: d rule: rev_induct) (simp_all add: handleResponse_conn)

text \<open>
  Claim C6.  Any number of consecutive \<^verbatim>\<open>handleResponse\<close> calls, correlated or not, add
  exactly one \<^verbatim>\<open>transport:up\<close> notification when there is at least one call and the
  state was not \<open>UP\<close> before the first, and none when the state was \<open>UP\<close> already; after
  the first call the state is \<open>UP\<close>.
\<close>

theorem transport_up_once:
  "ups (log (fold handleResponse reps d)) =
     ups (log d) + (if conn_state d = UP \<or> reps = [] then 0 else 1) \<and>
   conn_state (fold handleResponse reps d) = (if reps = [] then conn_state d else UP)"
  by (simp add: fold_handleResponse_ups fold_handleResponse_conn)

theorem transport_up_once_witness:
  "ups (log (fold handleResponse
      [\<lparr>rid = ''1'', successful = Some True, rchannel = ''/meta/connect''\<rparr>,
       \<lparr>rid = ''2'', successful = None, rchannel = ''/chat''\<rparr>,
       \<lparr>rid = ''3'', successful = None, rchannel = ''/chat''\<rparr>] (Dispatcher 5 0 :: spec_scheduler dispatcher))) = 1"
  using transport_up_once[of
      "[\<lparr>rid = ''1'', successful = Some True, rchannel = ''/meta/connect''\<rparr>,
       \<lparr>rid = ''2'', successful = None, rchannel = ''/chat''\<rparr>,
       \<lparr>rid = ''3'', successful = None, rchannel = ''/chat''\<rparr>]" "Dispatcher 5 0 :: spec_scheduler dispatcher"]
  by (simp add: Dispatcher_def UP_def ups_def)

section \<open>What a request preserves\<close>



lemma hinv_request: "hinv t (request t content ping)"
  by (simp add: hinv_def request_def)

lemma hinv_step:
  assumes "hinv t st" "http_step parse e st = Some (Inr st')"
  shows "hinv t st'"
proof (cases e)
  case (Response status)
  then show ?thesis using assms
    by (auto simp: http_step_def hinv_def on_response_def resolve_def reject_def split: if_splits)
next
  case (Data chunk)
  then show ?thesis using assms
    by (auto simp: http_step_def hinv_def on_data_def split: if_splits option.splits)
next
  case End
  then show ?thesis using assms
    by (auto simp: http_step_def hinv_def on_end_def split: if_splits option.splits sum.splits)
next
  case (Error msg)
  then show ?thesis using assms
    by (auto simp: http_step_def hinv_def on_error_def reject_def split: if_splits)
next
  case CancelFuture
  then show ?thesis using assms
    by (auto simp: http_step_def hinv_def on_cancel_def split: if_splits)
qed

lemma hinv_run:
  "hinv t st \<Longrightarrow> http_run parse es st = Some (Inr st') \<Longrightarrow> hinv t st'"
proof (induction es arbitrary: st)
  case Nil
  then show ?case by simp
next
  case (Cons e es)
  from Cons.prems(2) obtain st1 where s: "http_step parse e st = Some (Inr st1)"
    and r: "http_run parse es st1 = Some (Inr st')"
    by (auto split: option.splits sum.splits)
  from Cons.IH[OF hinv_step[OF Cons.prems(1) s] r] show ?case .
qed






section \<open>HTTP status outside the 2xx range (C7)\<close>



section \<open>The body of an accepted response (C8)\<close>

lemma data_run:
  "body st = Some b \<Longrightarrow> io st = Receiving \<Longrightarrow>
   http_run parse (map Data chunks) st = Some (Inr (st\<lparr>body := Some (b @ concat chunks)\<rparr>))"
proof (induction chunks arbitrary: st b)
  case Nil
  then show ?case by simp
next
  case (Cons c cs)
  have s: "http_step parse (Data c) st = Some (Inr (st\<lparr>body := Some (b @ c)\<rparr>))"
    using Cons.prems by (simp add: http_step_def on_data_def)
  have "http_run parse (map Data cs) (st\<lparr>body := Some (b @ c)\<rparr>) =
      Some (Inr (st\<lparr>body := Some (b @ c)\<rparr>\<lparr>body := Some ((b @ c) @ concat cs)\<rparr>))"
    using Cons.prems by (intro Cons.IH) simp_all
  then show ?case using s by simp
qed

lemma http_run_append:
  "http_run parse es st = Some (Inr st1) \<Longrightarrow>
   http_run parse (es @ fs) st = http_run parse fs st1"
  by (induction es arbitrary: st) (auto split: option.splits sum.splits)

text \<open>
  Claim C8.  A response with a status in \<open>[200, 300)\<close> whose body arrives in the chunks
  \<open>chunks\<close> resolves the promise; at the end of the body the text is parsed.  If
  \<^verbatim>\<open>JSON.parse\<close> throws, or the value is falsy (\<^verbatim>\<open>null\<close>, \<^verbatim>\<open>false\<close>, zero, the empty string),
  the listener calls \<^verbatim>\<open>transportDown\<close> with the transport and nothing else; a truthy
  value is passed to \<^verbatim>\<open>_receive\<close>.  The run ends in a state, not in a fault, and the
  promise stays resolved.
\<close>

theorem body_failure_signals_down:
  assumes "200 \<le> status \<and> status < 300"
  shows "http_run parse (Response status # map Data chunks @ [End]) (request t content ping) =
     Some (Inr
       \<lparr>self = t, promise = Resolved, body = Some (concat chunks), io = Finished,
        effects =
          [SetSocketKeepAlive ping, RequestEnd content, SetEncoding ''utf8'',
           (case parse (concat chunks) of
              Inl f \<Rightarrow> CallTransportDown t
            | Inr v \<Rightarrow> if truthy v then Receive v else CallTransportDown t)]\<rparr>)"
proof -
  let ?st1 = "\<lparr>self = t, promise = Resolved, body = Some [], io = Receiving,
        effects = [SetSocketKeepAlive ping, RequestEnd content, SetEncoding ''utf8'']\<rparr>"
  have s1: "http_step parse (Response status) (request t content ping) = Some (Inr ?st1)"
    using assms by (simp add: http_step_def on_response_def request_def resolve_def)
  have s2: "http_run parse (map Data chunks) ?st1 =
      Some (Inr (?st1\<lparr>body := Some ([] @ concat chunks)\<rparr>))"
    by (rule data_run) simp_all
  have s3: "http_run parse [End] (?st1\<lparr>body := Some ([] @ concat chunks)\<rparr>) =
     Some (Inr
       \<lparr>self = t, promise = Resolved, body = Some (concat chunks), io = Finished,
        effects =
          [SetSocketKeepAlive ping, RequestEnd content, SetEncoding ''utf8'',
           (case parse (concat chunks) of
              Inl f \<Rightarrow> CallTransportDown t
            | Inr v \<Rightarrow> if truthy v then Receive v else CallTransportDown t)]\<rparr>)"
    by (simp add: http_step_def on_end_def split: sum.splits)
  show ?thesis using s1 http_run_append[OF s2, of "[End]"] s3 by simp
qed

theorem body_failure_signals_down_witness:
  "http_run example_parse [Response 200, Data ''nu'', Data ''ll'', End]
     (request example_transport ''[]'' 25000) =
   Some (Inr
     \<lparr>self = example_transport, promise = Resolved, body = Some ''null'', io = Finished,
      effects = [SetSocketKeepAlive 25000, RequestEnd ''[]'', SetEncoding ''utf8'',
                 CallTransportDown example_transport]\<rparr>)"
proof -
  have "200 \<le> (200::nat) \<and> (200::nat) < 300" by simp
  from body_failure_signals_down[OF this, of example_parse "[''nu'', ''ll'']"
      example_transport "''[]''" 25000]
  show ?thesis by (simp add: example_parse_def)
qed

text \<open>
  The empty array and the empty object are truthy in JavaScript: a body \<^verbatim>\<open>[]\<close> is passed to
  \<^verbatim>\<open>_receive\<close> and is no failure.
\<close>

lemma empty_array_is_forwarded:
  "http_run example_parse [Response 200, Data ''[]'', End]
     (request example_transport ''[]'' 25000) =
   Some (Inr
     \<lparr>self = example_transport, promise = Resolved, body = Some ''[]'', io = Finished,
      effects = [SetSocketKeepAlive 25000, RequestEnd ''[]'', SetEncoding ''utf8'',
                 Receive (JArray [])]\<rparr>)"
  by (simp add: http_step_def on_response_def on_data_def on_end_def request_def resolve_def
      example_parse_def)

section \<open>Network errors (C9)\<close>

text \<open>
  Claim C9, as amended.  After any run of a request, when the \<^verbatim>\<open>error\<close> listener of the
  request runs: if no response has arrived and the promise has not been cancelled, the
  promise is pending and is rejected with the \<^verbatim>\<open>TransportError\<close> of the error's message;
  otherwise the promise has settled and stays as it is.  In both cases the listener has no
  other effect: it does not call \<^verbatim>\<open>transportDown\<close>.
\<close>

theorem network_error_rejects_pending:
  assumes "http_run parse evs (request t content ping) = Some (Inr st)"
    and "http_step parse (Error msg) st = Some res"
  shows "\<exists>st'. res = Inr st' \<and> effects st' = effects st \<and>
      (io st = AwaitingResponse \<longleftrightarrow> promise st = Pending) \<and>
      promise st' = (if promise st = Pending then Failed (TransportError msg) else promise st)"
proof -
  have h: "hinv t st" using hinv_request assms(1) by (rule hinv_run)
  show ?thesis
    using assms(2) h
    by (auto simp: http_step_def on_error_def reject_def hinv_def split: if_splits)
qed

theorem network_error_rejects_pending_witness:
  "the (http_step example_parse (Error ''connect ECONNREFUSED'')
          (request example_transport ''[]'' 25000)) =
     Inr \<lparr>self = example_transport,
          promise = Failed (TransportError ''connect ECONNREFUSED''),
          body = None, io = Finished,
          effects = [SetSocketKeepAlive 25000, RequestEnd ''[]'']\<rparr>"
proof -
  let ?st = "request example_transport ''[]'' 25000"
  have a: "http_run example_parse [] ?st = Some (Inr ?st)" by simp
  have b: "http_step example_parse (Error ''connect ECONNREFUSED'') ?st =
      Some (the (http_step example_parse (Error ''connect ECONNREFUSED'') ?st))"
    by (simp add: http_step_def request_def)
  from network_error_rejects_pending[OF a b]
  obtain st' where s: "the (http_step example_parse (Error ''connect ECONNREFUSED'') ?st) = Inr st'"
    "effects st' = effects ?st"
    "promise st' = (if promise ?st = Pending then Failed (TransportError ''connect ECONNREFUSED'')
       else promise ?st)"
    by blast
  have "self st' = example_transport" "body st' = None" "io st' = Finished"
    using s(1) by (auto simp: http_step_def request_def on_error_def)
  then show ?thesis using s by (simp add: request_def)
qed

text \<open>
  Claim C9 as stated fails when the error comes after a response with a status in
  \<open>[200, 300)\<close>, for instance when the connection is reset while the body arrives: the
  promise was resolved by the response callback and stays resolved.
\<close>

theorem network_error_after_response:
  "http_run example_parse [Response 200, Data ''[{'', Error ''read ECONNRESET'']
     (request example_transport ''[]'' 25000) =
   Some (Inr
     \<lparr>self = example_transport, promise = Resolved, body = Some ''[{'', io = Finished,
      effects = [SetSocketKeepAlive 25000, RequestEnd ''[]'', SetEncoding ''utf8'']\<rparr>)"
  by (simp add: http_step_def on_response_def on_data_def on_error_def request_def resolve_def
      reject_def)

section \<open>Resolution before the body (C10)\<close>



end
